theory Spec2Isabelle
  imports Main "HOL-Library.Word" "HOL-Library.Sublist"
begin

section \<open>Projection evaluator expressions\<close>

text \<open>
  \<open>ModelBasedPlanningContext::getProjectionEvaluator\<close> reads a description string with
  \<open>std::string::find_first_of\<close>, \<open>operator[]\<close> and \<open>substr\<close>. The robot model and the
  joint model group are collaborators: \<open>hasLinkModel\<close> answers whether a link is known,
  \<open>jointVariableCount\<close> is \<open>None\<close> for a joint the group does not have and the joint's
  variable count otherwise.
\<close>

datatype projection_evaluator =
  ProjectionEvaluatorLinkPose string
| ProjectionEvaluatorJointValue "(string \<times> nat) list"

datatype cpp_exception = OutOfRange

text \<open>\<open>s.find_first_of(chars)\<close>: the position of the first character of \<open>s\<close> that is one
  of the characters of \<open>chars\<close>; \<open>None\<close> stands for \<open>npos\<close>.\<close>

fun find_first_of :: "string \<Rightarrow> string \<Rightarrow> nat option" where
  "find_first_of [] chars = None"
| "find_first_of (c # s) chars =
     (if c \<in> set chars then Some 0 else map_option Suc (find_first_of s chars))"

text \<open>\<open>a - b\<close> on \<open>std::size_t\<close> (64 bits): the subtraction wraps around.\<close>

definition size_t_sub :: "nat \<Rightarrow> nat \<Rightarrow> nat" where
  "size_t_sub a b = (if b \<le> a then a - b else 2 ^ 64 + a - b)"

text \<open>\<open>s.substr(pos, n)\<close> throws \<open>std::out_of_range\<close> when \<open>pos > s.size()\<close>, and stops
  at the end of the string otherwise.\<close>

definition substr :: "string \<Rightarrow> nat \<Rightarrow> nat \<Rightarrow> cpp_exception + string" where
  "substr s pos n = (if length s < pos then Inl OutOfRange else Inr (take n (drop pos s)))"

text \<open>The characters \<open>operator>>\<close> and \<open>std::ws\<close> skip in the classic locale.\<close>

definition isspace :: "char \<Rightarrow> bool" where
  "isspace c = (c \<in> set [CHR '' '', CHR 0x09, CHR 0x0A, CHR 0x0B, CHR 0x0C, CHR 0x0D])"

text \<open>One round of \<open>ss >> v >> std::ws\<close>: leading white space is skipped, \<open>v\<close> is the run
  of other characters that follows (empty at the end of the stream), then the white space
  after it is skipped. The stream is at its end exactly when nothing is left.\<close>

definition read_word :: "string \<Rightarrow> string \<times> string" where
  "read_word r =
     (let r1 = dropWhile isspace r
      in (takeWhile (\<lambda>c. \<not> isspace c) r1,
          dropWhile isspace (dropWhile (\<lambda>c. \<not> isspace c) r1)))"

lemma read_word_shorter: "r \<noteq> [] \<Longrightarrow> length (snd (read_word r)) < length r"
proof (cases r)
  case Nil
  assume "r \<noteq> []"
  with Nil show ?thesis by simp
next
  case (Cons c cs)
  have le: "\<And>P (xs :: string). length (dropWhile P xs) \<le> length xs"
    by (simp add: length_dropWhile_le)
  show ?thesis
  proof (cases "isspace c")
    case True
    have "length (dropWhile isspace (dropWhile (\<lambda>c. \<not> isspace c) (dropWhile isspace cs)))
            \<le> length cs"
      by (meson le order_trans)
    with True Cons show ?thesis by (simp add: read_word_def Let_def)
  next
    case False
    have "length (dropWhile isspace (dropWhile (\<lambda>c. \<not> isspace c) cs)) \<le> length cs"
      by (meson le order_trans)
    with False Cons show ?thesis by (simp add: read_word_def Let_def)
  qed
qed

text \<open>The loop \<open>while (ss.good() && !ss.eof())\<close> over the joint names: a fresh stream is
  good, so the body runs at least once; it runs again while characters are left. Each
  name the group knows with a positive variable count is pushed onto \<open>j\<close>.\<close>

function read_joints :: "(string \<Rightarrow> nat option) \<Rightarrow> string \<Rightarrow> (string \<times> nat) list
    \<Rightarrow> (string \<times> nat) list" where
  "read_joints jointVariableCount r j =
     (let (v, r') = read_word r;
          j' = (case jointVariableCount v of
                  Some vc \<Rightarrow> if 0 < vc then j @ [(v, vc)] else j
                | None \<Rightarrow> j)
      in if r' = [] then j' else read_joints jointVariableCount r' j')"
  by pat_completeness auto
termination
proof (relation "measure (\<lambda>(jvc, r, j). length r)")
  show "wf (measure (\<lambda>(jvc, r, j). length r))" by simp
next
  fix jointVariableCount :: "string \<Rightarrow> nat option"
  fix r :: string and j :: "(string \<times> nat) list" and x v r' j'
  assume x: "x = read_word r" and vr: "(v, r') = x" and ne: "r' \<noteq> []"
  from x vr have r': "r' = snd (read_word r)" by (metis snd_conv)
  have "r \<noteq> []"
  proof
    assume "r = []"
    with r' have "r' = []" by (simp add: read_word_def)
    with ne show False by simp
  qed
  then have "length (snd (read_word r)) < length r" by (rule read_word_shorter)
  with r' show "((jointVariableCount, r', j'), (jointVariableCount, r, j))
      \<in> measure (\<lambda>(jvc, r, j). length r)" by simp
qed

text \<open>\<open>boost::replace_all(joints, ",", " ")\<close>.\<close>

definition replace_commas :: "string \<Rightarrow> string" where
  "replace_commas s = map (\<lambda>c. if c = CHR '','' then CHR '' '' else c) s"

text \<open>\<open>getProjectionEvaluator\<close>. \<open>Inr None\<close> is the null pointer returned on the last
  line; \<open>Inl OutOfRange\<close> is the exception \<open>substr\<close> throws, which nothing catches.\<close>

definition getProjectionEvaluator ::
    "(string \<Rightarrow> bool) \<Rightarrow> (string \<Rightarrow> nat option) \<Rightarrow> string
      \<Rightarrow> cpp_exception + projection_evaluator option" where
  "getProjectionEvaluator hasLinkModel jointVariableCount peval =
     (if find_first_of peval ''link('' = Some 0 \<and> peval ! (length peval - 1) = CHR '')'' then
        (case substr peval 5 (size_t_sub (length peval) 6) of
           Inl e \<Rightarrow> Inl e
         | Inr link_name \<Rightarrow>
             if hasLinkModel link_name then Inr (Some (ProjectionEvaluatorLinkPose link_name))
             else Inr None)
      else if find_first_of peval ''joints('' = Some 0
                \<and> peval ! (length peval - 1) = CHR '')'' then
        (case substr peval 7 (size_t_sub (length peval) 8) of
           Inl e \<Rightarrow> Inl e
         | Inr joints \<Rightarrow>
             (let j = read_joints jointVariableCount (replace_commas joints) []
              in if j = [] then Inr None else Inr (Some (ProjectionEvaluatorJointValue j))))
      else Inr None)"

text \<open>\<open>setProjectionEvaluator\<close> acts on the state space of the context's specification
  (\<open>space\<close>, the member \<open>spec_.state_space_\<close>; \<open>None\<close> when no state space is
  configured); of the state space its address and its registered default projection are
  kept. Member
  names lose their trailing underscore, which an Isabelle name cannot end with.\<close>

record state_space =
  address :: nat
  default_projection :: "projection_evaluator option"

definition registerDefaultProjection :: "projection_evaluator \<Rightarrow> state_space \<Rightarrow> state_space" where
  "registerDefaultProjection pe sp = sp\<lparr>default_projection := Some pe\<rparr>"

definition setProjectionEvaluator ::
    "(string \<Rightarrow> bool) \<Rightarrow> (string \<Rightarrow> nat option) \<Rightarrow> state_space option \<Rightarrow> string
      \<Rightarrow> cpp_exception + state_space option" where
  "setProjectionEvaluator hasLinkModel jointVariableCount space peval =
     (case space of
        None \<Rightarrow> Inr None
      | Some sp \<Rightarrow>
          (case getProjectionEvaluator hasLinkModel jointVariableCount peval of
             Inl e \<Rightarrow> Inl e
           | Inr None \<Rightarrow> Inr (Some sp)
           | Inr (Some pe) \<Rightarrow> Inr (Some (registerDefaultProjection pe sp))))"

text \<open>What the specification calls a recognised expression: the exact prefix, and a
  closing parenthesis at the end.\<close>

definition matches_form :: "string \<Rightarrow> string \<Rightarrow> bool" where
  "matches_form pre peval = (take (length pre) peval = pre \<and> peval \<noteq> [] \<and> last peval = CHR '')'')"


section \<open>Constraints, goals and samplers\<close>

text \<open>
  The types of the collaborators are left open: \<open>'m\<close> is a constraints message
  (\<open>moveit_msgs::Constraints\<close>), \<open>'k\<close> a \<open>KinematicConstraintSet\<close>, \<open>'cs\<close> a constraint
  sampler, \<open>'smp\<close> a state sampler produced by a constraint approximation and \<open>'s\<close> a
  state of the planning space.

  \<open>spec_\<close>, the specification the context is built from. A null shared pointer is \<open>None\<close>.
  The constraints library maps a message to a constraint approximation
  (\<open>getConstraintApproximation\<close>), which maps the message to a state sampler allocator
  (\<open>getStateSamplerAllocator\<close>), which maps the address of a state space to a sampler; each
  of the three may be null. The manager's \<open>selectSampler\<close>, for the scene and group of the
  context, maps a constraint set to a constraint sampler or null.
\<close>

record ('m, 'k, 'cs, 'smp) context_specification =
  state_space :: "state_space option"
  constraints_library :: "('m \<Rightarrow> ('m \<Rightarrow> (nat \<Rightarrow> 'smp option) option) option) option"
  constraint_sampler_manager :: "('k \<Rightarrow> 'cs option) option"

text \<open>The functions of \<open>kinematic_constraints\<close> the context calls: \<open>mergeConstraints\<close>;
  a new \<open>KinematicConstraintSet\<close> for the scene's robot model and transforms with a
  message added (\<open>newConstraintSet\<close>); and \<open>KinematicConstraintSet::empty\<close>.\<close>

record ('m, 'k) kinematic_constraints =
  mergeConstraints :: "'m \<Rightarrow> 'm \<Rightarrow> 'm"
  newConstraintSet :: "'m \<Rightarrow> 'k"
  empty :: "'k \<Rightarrow> bool"

datatype ('k, 'cs) goal =
  ConstrainedGoalSampler 'k 'cs
| GoalSampleableRegionMux "('k, 'cs) goal list"

datatype planner = FromPlannerAllocator | DefaultPlanner

datatype PlannerStatus =
  UNKNOWN | INVALID_START | INVALID_GOAL | UNRECOGNIZED_GOAL_TYPE | TIMEOUT
| APPROXIMATE_SOLUTION | EXACT_SOLUTION | CRASH

text \<open>What \<open>solve\<close> and \<open>follow\<close> do with the termination condition and the solvers,
  as a record of calls: the two registration functions, a poll of the condition with its
  answer, a run of the simple setup with the status it returned, and a run of the parallel
  plan with its planner pool, its two solution counts and the status it returned.\<close>

datatype call =
  RegisterTerminationCondition
| UnregisterTerminationCondition
| Poll bool
| SimpleSetupSolve PlannerStatus
| ParallelPlanSolve "planner list" nat nat PlannerStatus

text \<open>
  The members of the context that the modelled functions read or write. The samplers
  \<open>follow_samplers_\<close> are not among them: \<open>follow\<close> below takes them as an argument.
  \<^item> \<open>goal\<close> is the goal of \<open>ompl_simple_setup_\<close>, \<open>None\<close> for the null pointer it is
    while no goal is set; \<open>planner_allocator\<close> is whether the simple setup has a planner
    allocator, \<open>solution_paths\<close> the solution paths of its problem definition.
  \<^item> \<open>parallel_planners\<close> is the planner pool of \<open>ompl_parallel_plan_\<close>.
  \<^item> \<open>max_planning_threads\<close> is an \<open>unsigned int\<close>.
  \<^item> \<open>ptc\<close> is the pointer to the registered termination condition, \<open>None\<close> for \<open>NULL\<close>.
    A termination condition is the number of polls that still answer \<open>false\<close>: time only
    moves it towards 0, \<open>terminate()\<close> sets it to 0, and at 0 every poll answers \<open>true\<close>.
  \<^item> \<open>calls\<close> is not a member: it is the record of the calls \<open>solve\<close> and \<open>follow\<close>
    have made so far, so that statements can speak about them.
\<close>

record ('m, 'k, 'cs, 's) planning_context =
  path_constraints :: "'k option"
  path_constraints_msg :: 'm
  goal_constraints :: "'k list"
  goal :: "('k, 'cs) goal option"
  planner_allocator :: bool
  solution_paths :: "'s list list"
  parallel_planners :: "planner list"
  max_planning_threads :: "32 word"
  ptc :: "nat option"
  calls :: "call list"

datatype MoveItErrorCode = SUCCESS | FAILURE | PLANNING_FAILED | INVALID_GOAL_CONSTRAINTS

text \<open>\<open>setPathConstraints\<close>. The optional output \<open>error\<close> is \<open>None\<close> for a null pointer and
  the value it points to otherwise; the function returns its result, the context and the
  output.\<close>

definition setPathConstraints ::
    "('m, 'k) kinematic_constraints \<Rightarrow> ('m, 'k, 'cs, 's) planning_context \<Rightarrow> 'm \<Rightarrow> MoveItErrorCode option
      \<Rightarrow> bool \<times> ('m, 'k, 'cs, 's) planning_context \<times> MoveItErrorCode option" where
  "setPathConstraints kc ctx path_constraints_arg error =
     (True,
      ctx\<lparr>path_constraints := Some (newConstraintSet kc path_constraints_arg),
          path_constraints_msg := path_constraints_arg\<rparr>,
      error)"

text \<open>\<open>constructGoal\<close>: one \<open>ConstrainedGoalSampler\<close> for each goal constraint set the
  manager finds a sampler for.\<close>

definition constructGoal ::
    "('m, 'k, 'cs, 'smp) context_specification \<Rightarrow> ('m, 'k, 'cs, 's) planning_context \<Rightarrow> ('k, 'cs) goal option" where
  "constructGoal spec ctx =
     (let goals = concat (map (\<lambda>k.
            (case (case constraint_sampler_manager spec of
                     None \<Rightarrow> None
                   | Some selectSampler \<Rightarrow> selectSampler k) of
               None \<Rightarrow> []
             | Some cs \<Rightarrow> [ConstrainedGoalSampler k cs])) (goal_constraints ctx))
      in if goals \<noteq> [] then
           (if length goals = 1 then Some (goals ! 0) else Some (GoalSampleableRegionMux goals))
         else None)"

definition setGoalConstraints ::
    "('m, 'k) kinematic_constraints \<Rightarrow> ('m, 'k, 'cs, 'smp) context_specification
      \<Rightarrow> ('m, 'k, 'cs, 's) planning_context \<Rightarrow> 'm list \<Rightarrow> 'm \<Rightarrow> MoveItErrorCode option
      \<Rightarrow> bool \<times> ('m, 'k, 'cs, 's) planning_context \<times> MoveItErrorCode option" where
  "setGoalConstraints kc spec ctx goal_constraints_arg path_constraints_arg error =
     (let ksets = filter (\<lambda>kset. \<not> empty kc kset)
            (map (\<lambda>g. newConstraintSet kc (mergeConstraints kc g path_constraints_arg))
               goal_constraints_arg);
          ctx1 = ctx\<lparr>goal_constraints := ksets\<rparr>
      in if goal_constraints ctx1 = [] then
           (False, ctx1, map_option (\<lambda>v. INVALID_GOAL_CONSTRAINTS) error)
         else
           (let g = constructGoal spec ctx1;
                ctx2 = ctx1\<lparr>goal := g\<rparr>
            in if g \<noteq> None then (True, ctx2, error) else (False, ctx2, error)))"

text \<open>\<open>allocPathConstrainedSampler\<close>. The result is the sampler returned (\<open>None\<close> for the
  null pointer) and whether \<open>selectSampler\<close> of the manager was called.\<close>

datatype ('cs, 'smp) state_sampler =
  Precomputed 'smp
| ConstrainedSampler 'cs
| DefaultStateSampler

definition precomputed_sampler ::
    "('m, 'k, 'cs, 'smp) context_specification \<Rightarrow> 'm \<Rightarrow> nat \<Rightarrow> 'smp option" where
  "precomputed_sampler spec msg ss =
     (case constraints_library spec of
        None \<Rightarrow> None
      | Some getConstraintApproximation \<Rightarrow>
          (case getConstraintApproximation msg of
             None \<Rightarrow> None
           | Some getStateSamplerAllocator \<Rightarrow>
               (case getStateSamplerAllocator msg of
                  None \<Rightarrow> None
                | Some c_ssa \<Rightarrow> c_ssa ss)))"

definition allocPathConstrainedSampler ::
    "('m, 'k, 'cs, 'smp) context_specification \<Rightarrow> ('m, 'k, 'cs, 's) planning_context \<Rightarrow> nat
      \<Rightarrow> ('cs, 'smp) state_sampler option \<times> bool" where
  "allocPathConstrainedSampler spec ctx ss =
     (if map_option address (state_space spec) \<noteq> Some ss then (None, False)
      else
        (case path_constraints ctx of
           None \<Rightarrow> (Some DefaultStateSampler, False)
         | Some pc \<Rightarrow>
             (case precomputed_sampler spec (path_constraints_msg ctx) ss of
                Some res \<Rightarrow> (Some (Precomputed res), False)
              | None \<Rightarrow>
                  (case constraint_sampler_manager spec of
                     None \<Rightarrow> (Some DefaultStateSampler, False)
                   | Some selectSampler \<Rightarrow>
                       (case selectSampler pc of
                          Some cs \<Rightarrow> (Some (ConstrainedSampler cs), True)
                        | None \<Rightarrow> (Some DefaultStateSampler, True))))))"


section \<open>Termination conditions and \<open>solve\<close>\<close>

text \<open>What stops a call that does not return: the dereference of a null pointer, and an
  integer division by zero. A failing call is given with the context as it stood at the
  failure.\<close>

datatype cpp_failure = NullDereference | DivisionByZero

text \<open>
  The planning engine, as far as \<open>solve\<close> sees it.
  \<^item> \<open>timedPlannerTerminationCondition timeout\<close> is the condition built for a call with
    that timeout: how many polls answer \<open>false\<close> before its deadline passes or
    \<open>terminateSolve\<close> fires it. The timeout is a \<open>double\<close> in the source; only its
    identity matters here.
  \<^item> \<open>simple_setup_solve p\<close> is the status \<open>ompl_simple_setup_.solve(ptc)\<close> returns.
  \<^item> \<open>parallel_plan_solve i planners p\<close> is what the \<open>i\<close>-th run of
    \<open>ompl_parallel_plan_.solve\<close> of this call returns for that pool and the condition at
    \<open>p\<close>: its status, and how many polls of the time left it used up.
\<close>

record 't engine =
  timedPlannerTerminationCondition :: "'t \<Rightarrow> nat"
  simple_setup_solve :: "nat \<Rightarrow> PlannerStatus"
  parallel_plan_solve :: "nat \<Rightarrow> planner list \<Rightarrow> nat \<Rightarrow> PlannerStatus \<times> nat"

definition registerTerminationCondition ::
    "nat \<Rightarrow> ('m, 'k, 'cs, 's) planning_context \<Rightarrow> ('m, 'k, 'cs, 's) planning_context" where
  "registerTerminationCondition p ctx =
     ctx\<lparr>ptc := Some p, calls := calls ctx @ [RegisterTerminationCondition]\<rparr>"

definition unregisterTerminationCondition ::
    "('m, 'k, 'cs, 's) planning_context \<Rightarrow> ('m, 'k, 'cs, 's) planning_context" where
  "unregisterTerminationCondition ctx =
     ctx\<lparr>ptc := None, calls := calls ctx @ [UnregisterTerminationCondition]\<rparr>"


text \<open>A poll \<open>ptc()\<close> of a condition at \<open>p\<close>: at 0 it answers \<open>true\<close>; at \<open>Suc p\<close> it
  answers \<open>false\<close> and leaves \<open>p\<close>.\<close>

definition poll ::
    "nat \<Rightarrow> ('m, 'k, 'cs, 's) planning_context
      \<Rightarrow> bool \<times> nat \<times> ('m, 'k, 'cs, 's) planning_context" where
  "poll p ctx = (p = 0, p - 1, ctx\<lparr>calls := calls ctx @ [Poll (p = 0)]\<rparr>)"

text \<open>\<open>preSolve\<close> clears the solution paths of the problem definition and then asks the
  goal of the simple setup for its type, \<open>ompl_simple_setup_.getGoal()->hasType(...)\<close>:
  with no goal set this dereferences a null pointer. \<open>postSolve\<close> asks the goal the same
  question. What else they do (clearing the planner, starting and stopping lazy goal
  sampling, the motion counters, the log) is not kept.\<close>

definition preSolve ::
    "('m, 'k, 'cs, 's) planning_context
      \<Rightarrow> cpp_failure \<times> ('m, 'k, 'cs, 's) planning_context + ('m, 'k, 'cs, 's) planning_context" where
  "preSolve ctx =
     (let ctx1 = ctx\<lparr>solution_paths := []\<rparr>
      in case goal ctx1 of
           None \<Rightarrow> Inl (NullDereference, ctx1)
         | Some g \<Rightarrow> Inr ctx1)"

definition postSolve ::
    "('m, 'k, 'cs, 's) planning_context
      \<Rightarrow> cpp_failure \<times> ('m, 'k, 'cs, 's) planning_context + ('m, 'k, 'cs, 's) planning_context" where
  "postSolve ctx =
     (case goal ctx of
        None \<Rightarrow> Inl (NullDereference, ctx)
      | Some g \<Rightarrow> Inr ctx)"

text \<open>\<open>postSolve(); return result;\<close> at the end of \<open>solve\<close> and \<open>follow\<close>.\<close>

definition postSolve_return ::
    "bool \<Rightarrow> ('m, 'k, 'cs, 's) planning_context
      \<Rightarrow> cpp_failure \<times> ('m, 'k, 'cs, 's) planning_context
          + bool \<times> ('m, 'k, 'cs, 's) planning_context" where
  "postSolve_return result ctx =
     (case postSolve ctx of
        Inl failure \<Rightarrow> Inl failure
      | Inr ctx' \<Rightarrow> Inr (result, ctx'))"

text \<open>\<open>clearPlanners\<close> followed by the loop that adds \<open>n\<close> planners: from the planner
  allocator of the simple setup when it has one, the default planner for the goal
  otherwise.\<close>

definition fill_planners ::
    "nat \<Rightarrow> ('m, 'k, 'cs, 's) planning_context \<Rightarrow> ('m, 'k, 'cs, 's) planning_context" where
  "fill_planners n ctx =
     ctx\<lparr>parallel_planners :=
           replicate n (if planner_allocator ctx then FromPlannerAllocator else DefaultPlanner)\<rparr>"

text \<open>One run \<open>ompl_parallel_plan_.solve(ptc, 1, maxSolCount, true) == EXACT_SOLUTION\<close>
  with the condition at \<open>p\<close>: the comparison's result, the condition afterwards, and the
  context with the run recorded.\<close>

definition run_parallel_plan ::
    "'t engine \<Rightarrow> nat \<Rightarrow> nat \<Rightarrow> ('m, 'k, 'cs, 's) planning_context
      \<Rightarrow> bool \<times> nat \<times> ('m, 'k, 'cs, 's) planning_context" where
  "run_parallel_plan eng maxSolCount p ctx =
     (let (status, used) = parallel_plan_solve eng (length (calls ctx)) (parallel_planners ctx) p
      in (status = EXACT_SOLUTION, p - used,
          ctx\<lparr>calls := calls ctx
                 @ [ParallelPlanSolve (parallel_planners ctx) 1 maxSolCount status]\<rparr>))"

text \<open>The loop \<open>for (int i = 0 ; i < n && ptc() == false ; ++i)\<close> of the branch
  \<open>count > max_planning_threads_\<close>, by the number of rounds \<open>n - i\<close> still to go.\<close>

fun full_batches ::
    "'t engine \<Rightarrow> nat \<Rightarrow> nat \<Rightarrow> bool \<times> nat \<times> ('m, 'k, 'cs, 's) planning_context
      \<Rightarrow> bool \<times> nat \<times> ('m, 'k, 'cs, 's) planning_context" where
  "full_batches eng threads 0 st = st"
| "full_batches eng threads (Suc rounds) (result, p, ctx) =
     (let (fired, p1, ctx1) = poll p ctx
      in if fired then (result, p1, ctx1)
         else
           (let (r, p2, ctx2) = run_parallel_plan eng threads p1 (fill_planners threads ctx1)
            in full_batches eng threads rounds (result \<and> r, p2, ctx2)))"

text \<open>\<open>n = count % max_planning_threads_; if (n && ptc() == false) ...\<close>, with \<open>n\<close> an
  \<open>int\<close>: the loop \<open>for (int i = 0 ; i < n ; ++i)\<close> adds no planner for a negative \<open>n\<close>,
  and \<open>n\<close> is converted to \<open>unsigned int\<close> for the call.\<close>

fun last_batch ::
    "'t engine \<Rightarrow> int \<Rightarrow> bool \<times> nat \<times> ('m, 'k, 'cs, 's) planning_context
      \<Rightarrow> bool \<times> nat \<times> ('m, 'k, 'cs, 's) planning_context" where
  "last_batch eng n (result, p, ctx) =
     (if n = 0 then (result, p, ctx)
      else
        (let (fired, p1, ctx1) = poll p ctx
         in if fired then (result, p1, ctx1)
            else
              (let (r, p2, ctx2) =
                     run_parallel_plan eng (nat (n mod 2 ^ 32)) p1 (fill_planners (nat n) ctx1)
               in (result \<and> r, p2, ctx2))))"

text \<open>\<open>solve\<close>. The counts are \<open>unsigned int\<close>; \<open>int n = count / max_planning_threads_\<close>
  reads the quotient as a signed value, and a zero divisor is a failure of the call, at
  the division, which comes after the registration. No failure is caught anywhere in
  \<open>solve\<close>.\<close>

definition solve ::
    "'t engine \<Rightarrow> ('m, 'k, 'cs, 's) planning_context \<Rightarrow> 't \<Rightarrow> 32 word
      \<Rightarrow> cpp_failure \<times> ('m, 'k, 'cs, 's) planning_context
          + bool \<times> ('m, 'k, 'cs, 's) planning_context" where
  "solve eng ctx0 timeout count =
     (case preSolve ctx0 of
        Inl failure \<Rightarrow> Inl failure
      | Inr ctx \<Rightarrow>
      if count \<le> 1 then
        (let p = timedPlannerTerminationCondition eng timeout;
             ctx1 = registerTerminationCondition p ctx;
             status = simple_setup_solve eng p;
             result = (status = EXACT_SOLUTION);
             ctx2 = ctx1\<lparr>calls := calls ctx1 @ [SimpleSetupSolve status]\<rparr>;
             ctx3 = unregisterTerminationCondition ctx2
         in postSolve_return result ctx3)
      else if count \<le> max_planning_threads ctx then
        (let ctx1 = fill_planners (unat count) ctx;
             p = timedPlannerTerminationCondition eng timeout;
             ctx2 = registerTerminationCondition p ctx1;
             (result, p', ctx3) = run_parallel_plan eng (unat count) p ctx2;
             ctx4 = unregisterTerminationCondition ctx3
         in postSolve_return result ctx4)
      else
        (let p = timedPlannerTerminationCondition eng timeout;
             ctx1 = registerTerminationCondition p ctx
         in if max_planning_threads ctx = 0 then Inl (DivisionByZero, ctx1)
            else
              (let n = sint (count div max_planning_threads ctx);
                   st = full_batches eng (unat (max_planning_threads ctx)) (nat n) (True, p, ctx1);
                   n' = sint (count mod max_planning_threads ctx);
                   (result, p', ctx2) = last_batch eng n' st;
                   ctx3 = unregisterTerminationCondition ctx2
               in postSolve_return result ctx3)))"

text \<open>The parallel runs recorded in a list of calls: the size of each run's planner
  pool with whether the run returned \<open>EXACT_SOLUTION\<close>.\<close>

fun batches :: "call list \<Rightarrow> (nat \<times> bool) list" where
  "batches [] = []"
| "batches (ParallelPlanSolve planners minSolCount maxSolCount status # cs) =
     (length planners, status = EXACT_SOLUTION) # batches cs"
| "batches (c # cs) = batches cs"

text \<open>The calls a function made: those of the context it returns, after those of the
  context it started from.\<close>

definition new_calls ::
    "('m, 'k, 'cs, 's) planning_context \<Rightarrow> ('m, 'k, 'cs, 's) planning_context \<Rightarrow> call list" where
  "new_calls ctx ctx' = drop (length (calls ctx)) (calls ctx')"

text \<open>The batch sizes in the words of the specification: \<open>count div threads\<close> full batches
  of size \<open>threads\<close>, and a last one of size \<open>count mod threads\<close> when that is not zero.\<close>

definition spec_batch_sizes :: "nat \<Rightarrow> nat \<Rightarrow> nat list" where
  "spec_batch_sizes count threads =
     replicate (count div threads) threads
       @ (if count mod threads = 0 then [] else [count mod threads])"

text \<open>The parallel runs made after a poll that found the condition fired.\<close>

definition runs_after_fired :: "call list \<Rightarrow> (nat \<times> bool) list" where
  "runs_after_fired cs = batches (dropWhile (\<lambda>c. c \<noteq> Poll True) cs)"

text \<open>A context ready to plan: one goal sampler as its goal, no path constraints, no
  planner allocator and nothing registered, for a given number of planning threads.\<close>

definition ready_context :: "32 word \<Rightarrow> (unit, unit, unit, nat) planning_context" where
  "ready_context threads =
     \<lparr>path_constraints = None, path_constraints_msg = (), goal_constraints = [()],
      goal = Some (ConstrainedGoalSampler () ()), planner_allocator = False, solution_paths = [], parallel_planners = [],
      max_planning_threads = threads, ptc = None, calls = []\<rparr>"

section \<open>The Follower\<close>

text \<open>
  A \<open>ValidConstrainedSampler\<close>. Its answers are random; they are given here for each
  moment of a run, a moment being the value of the termination condition (the polls it
  still answers \<open>false\<close> to) when the call is made. A call that returns \<open>false\<close> is
  \<open>None\<close>; one that returns \<open>true\<close> is the state it leaves in \<open>work_area\<close>.
\<close>

record 's valid_constrained_sampler =
  sample :: "nat \<Rightarrow> 's option"
  project :: "nat \<Rightarrow> 's \<Rightarrow> 's option"

text \<open>
  The state, validity and motion checks of the run are kept; \<open>si_->setup()\<close> and
  \<open>pis_.checkValidity()\<close> at its start are not.

  What \<open>Follower::follow\<close> asks of its space information \<open>si_\<close>, its problem definition
  \<open>pdef_\<close>, its planner input states \<open>pis_\<close>, its random numbers and its distribution
  over the layers:
  \<^item> whether the goal has the type \<open>GOAL_SAMPLEABLE_REGION\<close>;
  \<^item> the start states \<open>pis_.nextStart()\<close> yields, in order;
  \<^item> the state \<open>pis_.nextGoal\<close> yields at a moment of the run, or null;
  \<^item> \<open>si_->isValid\<close> and \<open>si_->checkMotion\<close>;
  \<^item> the layer \<open>pdf_sets.sample(rng_.uniform01())\<close> draws at a moment of the run;
  \<^item> whether \<open>rng_.uniform01() < goalBias_\<close> at a moment of the run.
\<close>

record 's planning_problem =
  goal_sampleable :: bool
  start_states :: "'s list"
  nextGoal :: "nat \<Rightarrow> 's option"
  isValid :: "'s \<Rightarrow> bool"
  checkMotion :: "'s \<Rightarrow> 's \<Rightarrow> bool"
  pdf_sample :: "nat \<Rightarrow> nat"
  goal_biased :: "nat \<Rightarrow> bool"

text \<open>The three vectors of the roadmap: the layers \<open>sets\<close>, the forward edges
  \<open>connections\<close> and the flags \<open>is_start\<close>.\<close>

record 's roadmap =
  sets :: "'s list list"
  connections :: "nat list list list"
  is_start :: "int list list"

text \<open>\<open>vs[i].push_back(x)\<close> and \<open>vs[i][j].push_back(x)\<close>.\<close>

definition push_back_at :: "nat \<Rightarrow> 'a \<Rightarrow> 'a list list \<Rightarrow> 'a list list" where
  "push_back_at i x vs = vs[i := vs ! i @ [x]]"

definition push_edge :: "nat \<Rightarrow> nat \<Rightarrow> nat \<Rightarrow> nat list list list \<Rightarrow> nat list list list" where
  "push_edge i j k conns = conns[i := push_back_at j k (conns ! i)]"

definition set_flag :: "nat \<Rightarrow> nat \<Rightarrow> int list list \<Rightarrow> int list list" where
  "set_flag i j flags = flags[i := (flags ! i)[j := 1]]"

subsection \<open>Seeding the layers\<close>

text \<open>The body of the loop \<open>while (sets[i + 1].empty() && !ptc())\<close> for sampler \<open>i\<close> at
  moment \<open>t\<close>.\<close>

definition seed_attempt ::
    "'s planning_problem \<Rightarrow> 's valid_constrained_sampler \<Rightarrow> nat \<Rightarrow> nat \<Rightarrow> 's list list
      \<Rightarrow> 's list list" where
  "seed_attempt prob smp i t layers =
     (let work_area =
            (if layers ! i = [] then sample smp t
             else (case project smp t (last (layers ! i)) of
                     Some w \<Rightarrow> Some w
                   | None \<Rightarrow> sample smp t))
      in case work_area of
           None \<Rightarrow> layers
         | Some w \<Rightarrow> if isValid prob w then push_back_at (Suc i) w layers else layers)"

text \<open>The loop itself, with the condition at \<open>p\<close>: the condition is polled only while
  the layer is empty.\<close>

fun seed_layer ::
    "'s planning_problem \<Rightarrow> 's valid_constrained_sampler \<Rightarrow> nat \<Rightarrow> nat \<Rightarrow> 's list list
      \<Rightarrow> 's list list \<times> nat" where
  "seed_layer prob smp i 0 layers = (layers, 0)"
| "seed_layer prob smp i (Suc p) layers =
     (if layers ! Suc i = [] then seed_layer prob smp i p (seed_attempt prob smp i p layers)
      else (layers, Suc p))"

text \<open>\<open>for (i = 0 ; i < samplers.size() && !ptc() ; ++i)\<close>, over the samplers from
  \<open>samplers[i]\<close> on.\<close>

fun seed_layers ::
    "'s planning_problem \<Rightarrow> 's valid_constrained_sampler list \<Rightarrow> nat \<Rightarrow> nat \<Rightarrow> 's list list
      \<Rightarrow> 's list list \<times> nat" where
  "seed_layers prob [] i p layers = (layers, p)"
| "seed_layers prob (smp # rest) i 0 layers = (layers, 0)"
| "seed_layers prob (smp # rest) i (Suc p) layers =
     (let (layers', p') = seed_layer prob smp i p layers
      in seed_layers prob rest (Suc i) p' layers')"

subsection \<open>The first samples\<close>

text \<open>The loop that sizes \<open>connections[i]\<close> and checks the motion between the first
  states of adjacent layers.\<close>

definition first_connections :: "'s planning_problem \<Rightarrow> 's list list \<Rightarrow> nat list list list" where
  "first_connections prob layers =
     map (\<lambda>i. if checkMotion prob (layers ! i ! 0) (layers ! Suc i ! 0)
               then push_back_at 0 0 (replicate (length (layers ! i)) [])
               else replicate (length (layers ! i)) [])
       [0..<length layers - 1]"

definition first_sample_worked :: "'s planning_problem \<Rightarrow> 's list list \<Rightarrow> bool" where
  "first_sample_worked prob layers =
     list_all (\<lambda>i. checkMotion prob (layers ! i ! 0) (layers ! Suc i ! 0))
       [0..<length layers - 1]"

subsection \<open>Start information\<close>

text \<open>\<open>propagateStartInfo\<close>; it returns \<open>is_start\<close>.\<close>

function propagateStartInfo ::
    "nat \<Rightarrow> nat \<Rightarrow> int list list \<Rightarrow> nat list list list \<Rightarrow> int list list" where
  "propagateStartInfo set_index elem_index flags conns =
     (if length conns \<le> set_index then flags
      else fold (\<lambda>c flags'. propagateStartInfo (Suc set_index) c
                   (set_flag (Suc set_index) c flags') conns)
             (conns ! set_index ! elem_index) flags)"
  by pat_completeness auto
termination
  by (relation "measure (\<lambda>(set_index, elem_index, flags, conns). length conns - set_index)")
    auto

declare propagateStartInfo.simps [simp del]

text \<open>The further connections from the start states, the initial flags and their
  propagation, before the loop of the expansion.\<close>

definition start_connections ::
    "'s planning_problem \<Rightarrow> 's list list \<Rightarrow> nat list list list \<Rightarrow> nat list list list" where
  "start_connections prob layers conns =
     fold (\<lambda>i c. if checkMotion prob (layers ! 0 ! i) (layers ! 1 ! 0) then push_edge 0 i 0 c else c)
       [1..<length (layers ! 0)] conns"

definition initial_flags :: "'s list list \<Rightarrow> int list list" where
  "initial_flags layers =
     map (\<lambda>i. replicate (length (layers ! i)) (if i = 0 then 1 else 0)) [0..<length layers]"

definition initial_roadmap :: "'s planning_problem \<Rightarrow> 's list list \<Rightarrow> 's roadmap" where
  "initial_roadmap prob layers =
     (let conns = start_connections prob layers (first_connections prob layers)
      in \<lparr>sets = layers, connections = conns,
          is_start = fold (\<lambda>i flags. propagateStartInfo 0 i flags conns)
                       [0..<length (layers ! 0)] (initial_flags layers)\<rparr>)"

subsection \<open>The expansion\<close>

text \<open>The two loops that follow an addition, for the layer \<open>index\<close> and its last
  element \<open>added_elem_index\<close>: one round for the state \<open>i\<close> of the previous layer, one
  round for the state \<open>i\<close> of the next layer.\<close>

definition link_prev :: "'s planning_problem \<Rightarrow> nat \<Rightarrow> nat \<Rightarrow> nat \<Rightarrow> 's roadmap \<Rightarrow> 's roadmap" where
  "link_prev prob index added_elem_index i r =
     (if checkMotion prob (sets r ! (index - 1) ! i) (last (sets r ! index)) then
        (let conns = push_edge (index - 1) i added_elem_index (connections r)
         in if is_start r ! (index - 1) ! i = 1 then
              r\<lparr>connections := conns,
                is_start := propagateStartInfo index added_elem_index
                              (set_flag index added_elem_index (is_start r)) conns\<rparr>
            else r\<lparr>connections := conns\<rparr>)
      else r)"

definition link_next :: "'s planning_problem \<Rightarrow> nat \<Rightarrow> nat \<Rightarrow> nat \<Rightarrow> 's roadmap \<Rightarrow> 's roadmap" where
  "link_next prob index added_elem_index i r =
     (if checkMotion prob (last (sets r ! index)) (sets r ! Suc index ! i) then
        (let conns = push_edge index added_elem_index i (connections r)
         in if is_start r ! index ! added_elem_index = 1 \<and> is_start r ! Suc index ! i = 0 then
              r\<lparr>connections := conns,
                is_start := propagateStartInfo (Suc index) i
                              (set_flag (Suc index) i (is_start r)) conns\<rparr>
            else r\<lparr>connections := conns\<rparr>)
      else r)"

text \<open>The block \<open>if (added)\<close>, up to the search for a start flag in the goal layer. It
  works on the layer \<open>index\<close> the distribution drew, also when the state added was a goal
  state drawn by the goal bias.\<close>

definition connect_added :: "'s planning_problem \<Rightarrow> nat \<Rightarrow> 's roadmap \<Rightarrow> 's roadmap" where
  "connect_added prob index r =
     (let goal_index = length (sets r) - 1;
          added_elem_index = length (sets r ! index) - 1;
          r1 = fold (link_prev prob index added_elem_index)
                 [0..<length (sets r ! (index - 1))] r
      in if index < goal_index then
           fold (link_next prob index added_elem_index) [0..<length (sets r1 ! Suc index)] r1
         else r1)"

text \<open>The state of the loop \<open>while (!ptc() && !solved)\<close> and its body at moment \<open>t\<close>.\<close>

record 's expansion =
  roadmap :: "'s roadmap"
  adding_goals :: bool
  solved :: bool

definition expand_step ::
    "'s planning_problem \<Rightarrow> 's valid_constrained_sampler list \<Rightarrow> nat \<Rightarrow> 's expansion
      \<Rightarrow> 's expansion" where
  "expand_step prob samplers t e =
     (let r = roadmap e;
          goal_index = length (sets r) - 1;
          index = pdf_sample prob t;
          (added, r1, adding) =
            (if index = goal_index \<or> (adding_goals e \<and> goal_biased prob t) then
               (case nextGoal prob t of
                  Some st \<Rightarrow>
                    (True,
                     r\<lparr>sets := push_back_at goal_index st (sets r),
                       is_start := push_back_at goal_index 0 (is_start r)\<rparr>,
                     adding_goals e)
                | None \<Rightarrow> (False, r, False))
             else
               (case sample (samplers ! (index - 1)) t of
                  Some w \<Rightarrow>
                    if isValid prob w then
                      (True,
                       r\<lparr>sets := push_back_at index w (sets r),
                         connections := push_back_at index [] (connections r),
                         is_start := push_back_at index 0 (is_start r)\<rparr>,
                       adding_goals e)
                    else (False, r, adding_goals e)
                | None \<Rightarrow> (False, r, adding_goals e)))
      in if added then
           (let r2 = connect_added prob index r1
            in \<lparr>roadmap = r2, adding_goals = adding,
                solved = (if 1 \<in> set (is_start r2 ! goal_index) then True else solved e)\<rparr>)
         else \<lparr>roadmap = r1, adding_goals = adding, solved = solved e\<rparr>)"

fun expand ::
    "'s planning_problem \<Rightarrow> 's valid_constrained_sampler list \<Rightarrow> nat \<Rightarrow> 's expansion
      \<Rightarrow> 's expansion" where
  "expand prob samplers 0 e = e"
| "expand prob samplers (Suc p) e =
     (if solved e then e else expand prob samplers p (expand_step prob samplers p e))"

subsection \<open>The solution path\<close>

text \<open>\<open>findSolutionPath\<close> with its loop over \<open>connections[set_index][elem_index]\<close>; the
  path is passed through. A \<open>set_index\<close> beyond the goal layer would read outside
  \<open>connections\<close>; no call reaches it, and the search fails there.\<close>

function findSolutionPath ::
    "'s list \<Rightarrow> nat \<Rightarrow> nat \<Rightarrow> 's list list \<Rightarrow> nat list list list \<Rightarrow> bool \<times> 's list"
  and find_loop ::
    "'s list \<Rightarrow> nat \<Rightarrow> nat \<Rightarrow> nat list \<Rightarrow> 's list list \<Rightarrow> nat list list list \<Rightarrow> bool \<times> 's list"
  where
  "findSolutionPath path set_index elem_index layers conns =
     (if set_index = length conns then (True, path @ [layers ! set_index ! elem_index])
      else if set_index < length conns then
        find_loop path set_index elem_index (conns ! set_index ! elem_index) layers conns
      else (False, path))"
| "find_loop path set_index elem_index [] layers conns = (False, path)"
| "find_loop path set_index elem_index (c # cs) layers conns =
     (if set_index < length conns then
        (case findSolutionPath path (Suc set_index) c layers conns of
           (True, path') \<Rightarrow> (True, path' @ [layers ! set_index ! elem_index])
         | (False, path') \<Rightarrow> find_loop path' set_index elem_index cs layers conns)
      else (False, path))"
  by pat_completeness auto
termination
  by (relation "measures
        [\<lambda>x. case x of
            Inl (path, set_index, elem_index, layers, conns) \<Rightarrow> length conns - set_index
          | Inr (path, set_index, elem_index, cs, layers, conns) \<Rightarrow> length conns - set_index,
         \<lambda>x. case x of
            Inl (path, set_index, elem_index, layers, conns) \<Rightarrow>
              Suc (length (conns ! set_index ! elem_index))
          | Inr (path, set_index, elem_index, cs, layers, conns) \<Rightarrow> length cs]")
    auto

declare findSolutionPath.simps [simp del]

text \<open>\<open>computeSolution\<close>: the search from each start state until one succeeds, and the
  reversed path added to the solution paths of the problem definition.\<close>

fun search_from_starts ::
    "'s list \<Rightarrow> nat list \<Rightarrow> 's list list \<Rightarrow> nat list list list \<Rightarrow> bool \<times> 's list" where
  "search_from_starts path [] layers conns = (False, path)"
| "search_from_starts path (i # starts) layers conns =
     (case findSolutionPath path 0 i layers conns of
        (True, path') \<Rightarrow> (True, path')
      | (False, path') \<Rightarrow> search_from_starts path' starts layers conns)"

definition computeSolution ::
    "'s list list \<Rightarrow> nat list list list \<Rightarrow> 's list list \<Rightarrow> 's list list" where
  "computeSolution layers conns paths =
     (case search_from_starts [] [0..<length (layers ! 0)] layers conns of
        (True, pg) \<Rightarrow> paths @ [rev pg]
      | (False, pg) \<Rightarrow> paths)"

subsection \<open>\<open>Follower::follow\<close>\<close>

text \<open>What a run leaves: the status returned, the solution paths of the problem
  definition, and the layers as they were before they were freed.\<close>

record 's follow_run =
  status :: PlannerStatus
  paths :: "'s list list"
  layers_built :: "'s list list"

definition Follower_follow ::
    "'s planning_problem \<Rightarrow> 's valid_constrained_sampler list \<Rightarrow> nat \<Rightarrow> 's list list
      \<Rightarrow> 's follow_run" where
  "Follower_follow prob samplers ptc0 paths0 =
     (if \<not> goal_sampleable prob then
        \<lparr>status = UNRECOGNIZED_GOAL_TYPE, paths = paths0, layers_built = []\<rparr>
      else
        (let layers0 = (replicate (length samplers + 2) [])[0 := start_states prob]
         in if layers0 ! 0 = [] then
              \<lparr>status = INVALID_START, paths = paths0, layers_built = layers0\<rparr>
            else
              (let (layers1, p1) = seed_layers prob samplers 0 ptc0 layers0
               in case p1 of
                    0 \<Rightarrow> \<lparr>status = TIMEOUT, paths = paths0, layers_built = layers1\<rparr>
                  | Suc p2 \<Rightarrow>
                      (case nextGoal prob p2 of
                         None \<Rightarrow> \<lparr>status = INVALID_GOAL, paths = paths0, layers_built = layers1\<rparr>
                       | Some st \<Rightarrow>
                           (let layers2 = push_back_at (length layers1 - 1) st layers1
                            in if first_sample_worked prob layers2 then
                                 \<lparr>status = EXACT_SOLUTION,
                                  paths = computeSolution layers2
                                            (first_connections prob layers2) paths0,
                                  layers_built = layers2\<rparr>
                               else
                                 (let e = expand prob samplers p2
                                            \<lparr>roadmap = initial_roadmap prob layers2,
                                             adding_goals = True, solved = False\<rparr>;
                                      r = roadmap e
                                  in if solved e then
                                       \<lparr>status = EXACT_SOLUTION,
                                        paths = computeSolution (sets r) (connections r) paths0,
                                        layers_built = sets r\<rparr>
                                     else
                                       \<lparr>status = TIMEOUT, paths = paths0,
                                        layers_built = sets r\<rparr>))))))"


subsection \<open>\<open>ModelBasedPlanningContext::follow\<close>\<close>

text \<open>\<open>follow\<close> of the context, with the member \<open>follow_samplers_\<close> as an argument: the
  Follower works on the problem definition of the simple setup, whose solution paths
  are those of the context. The polls the Follower
  makes of the condition are its own and are not on the record of calls. As in \<open>solve\<close>,
  \<open>preSolve\<close> comes before the registration and no failure is caught.\<close>

definition follow ::
    "'t engine \<Rightarrow> 's planning_problem \<Rightarrow> 's valid_constrained_sampler list
      \<Rightarrow> ('m, 'k, 'cs, 's) planning_context \<Rightarrow> 't \<Rightarrow> 32 word
      \<Rightarrow> cpp_failure \<times> ('m, 'k, 'cs, 's) planning_context
          + bool \<times> ('m, 'k, 'cs, 's) planning_context" where
  "follow eng prob follow_samplers ctx0 timeout count =
     (case preSolve ctx0 of
        Inl failure \<Rightarrow> Inl failure
      | Inr ctx \<Rightarrow>
        (let p = timedPlannerTerminationCondition eng timeout;
             ctx1 = registerTerminationCondition p ctx;
             run = Follower_follow prob follow_samplers p (solution_paths ctx1);
             result = (status run = EXACT_SOLUTION);
             ctx2 = ctx1\<lparr>solution_paths := paths run\<rparr>;
             ctx3 = unregisterTerminationCondition ctx2
         in postSolve_return result ctx3))"

text \<open>The registrations and unregistrations among a list of calls.\<close>

definition registrations :: "call list \<Rightarrow> call list" where
  "registrations cs =
     filter (\<lambda>c. c = RegisterTerminationCondition \<or> c = UnregisterTerminationCondition) cs"

subsection \<open>Invariants of the roadmap\<close>

text \<open>The shape of the vectors: a row of connections for every layer but the last, as
  long as its layer; no layer empty; a row of flags for every layer, as long as its
  layer.\<close>

definition shaped :: "'s list list \<Rightarrow> nat list list list \<Rightarrow> bool" where
  "shaped layers conns \<longleftrightarrow>
     length layers = Suc (length conns)
     \<and> (\<forall>i<length conns. length (conns ! i) = length (layers ! i))
     \<and> (\<forall>i<length layers. layers ! i \<noteq> [])"

definition flagged :: "'s list list \<Rightarrow> int list list \<Rightarrow> bool" where
  "flagged layers flags \<longleftrightarrow>
     length flags = length layers \<and> (\<forall>i<length layers. length (flags ! i) = length (layers ! i))"

text \<open>Every edge on record leads to a state of the next layer, and the motion along it
  is valid.\<close>

definition sound :: "'s planning_problem \<Rightarrow> 's list list \<Rightarrow> nat list list list \<Rightarrow> bool" where
  "sound prob layers conns \<longleftrightarrow>
     (\<forall>i<length conns. \<forall>j<length (conns ! i). \<forall>k\<in>set (conns ! i ! j).
        k < length (layers ! Suc i) \<and> checkMotion prob (layers ! i ! j) (layers ! Suc i ! k))"

text \<open>\<open>reach conns i j\<close>: state \<open>j\<close> of layer \<open>i\<close> is a start state or the end of a chain
  of edges from one. \<open>leads conns i j\<close>: a chain of edges from it ends in the goal
  layer.\<close>

inductive reach :: "nat list list list \<Rightarrow> nat \<Rightarrow> nat \<Rightarrow> bool" for conns where
  reach_start: "reach conns 0 j"
| reach_edge: "reach conns i j \<Longrightarrow> i < length conns \<Longrightarrow> j < length (conns ! i)
     \<Longrightarrow> k \<in> set (conns ! i ! j) \<Longrightarrow> reach conns (Suc i) k"

inductive leads :: "nat list list list \<Rightarrow> nat \<Rightarrow> nat \<Rightarrow> bool" for conns where
  leads_goal: "i = length conns \<Longrightarrow> leads conns i j"
| leads_edge: "i < length conns \<Longrightarrow> k \<in> set (conns ! i ! j) \<Longrightarrow> leads conns (Suc i) k
     \<Longrightarrow> leads conns i j"

text \<open>A flag is set only for a state that a chain of edges reaches from a start
  state.\<close>

definition marked :: "nat list list list \<Rightarrow> int list list \<Rightarrow> bool" where
  "marked conns flags \<longleftrightarrow>
     (\<forall>i<length flags. \<forall>j<length (flags ! i). flags ! i ! j = 1 \<longrightarrow> reach conns i j)"

definition roadmap_ok :: "'s planning_problem \<Rightarrow> 's roadmap \<Rightarrow> bool" where
  "roadmap_ok prob r \<longleftrightarrow>
     shaped (sets r) (connections r) \<and> flagged (sets r) (is_start r)
     \<and> sound prob (sets r) (connections r) \<and> marked (connections r) (is_start r)"

text \<open>One vector of connections holds every edge of another.\<close>

definition extends :: "nat list list list \<Rightarrow> nat list list list \<Rightarrow> bool" where
  "extends conns conns' \<longleftrightarrow>
     length conns' = length conns
     \<and> (\<forall>i<length conns. length (conns ! i) \<le> length (conns' ! i)
           \<and> (\<forall>j<length (conns ! i). set (conns ! i ! j) \<subseteq> set (conns' ! i ! j)))"

text \<open>A path from a start state to a goal state through the layers, one state from
  each, with a valid motion between neighbours.\<close>

definition follows_layers :: "'s planning_problem \<Rightarrow> 's list list \<Rightarrow> 's list \<Rightarrow> bool" where
  "follows_layers prob layers path \<longleftrightarrow>
     length path = length layers
     \<and> list_all (\<lambda>i. path ! i \<in> set (layers ! i)) [0..<length layers]
     \<and> list_all (\<lambda>i. checkMotion prob (path ! i) (path ! Suc i)) [0..<length layers - 1]"


text \<open>\<open>chain layers conns i j q\<close>: \<open>q\<close> lists the states of a chain of edges from state \<open>j\<close>
  of layer \<open>i\<close> to the goal layer, the goal state first, as \<open>findSolutionPath\<close> appends
  them.\<close>

inductive chain :: "'s list list \<Rightarrow> nat list list list \<Rightarrow> nat \<Rightarrow> nat \<Rightarrow> 's list \<Rightarrow> bool"
  for layers conns where
  chain_goal: "i = length conns \<Longrightarrow> chain layers conns i j [layers ! i ! j]"
| chain_edge: "i < length conns \<Longrightarrow> k \<in> set (conns ! i ! j) \<Longrightarrow> chain layers conns (Suc i) k q
     \<Longrightarrow> chain layers conns i j (q @ [layers ! i ! j])"

text \<open>A list of states along a list of layers: one state from each, with a valid motion
  between neighbours.\<close>

definition path_along :: "'s planning_problem \<Rightarrow> 's list list \<Rightarrow> 's list \<Rightarrow> bool" where
  "path_along prob ls p \<longleftrightarrow>
     length p = length ls \<and> (\<forall>i<length ls. p ! i \<in> set (ls ! i))
     \<and> (\<forall>i. Suc i < length ls \<longrightarrow> checkMotion prob (p ! i) (p ! Suc i))"

text \<open>What holds of the state of the expansion before and after each round, for \<open>n\<close>
  samplers: the roadmap is in order over \<open>n + 2\<close> layers, and \<open>solved\<close> is set only when
  a flag of the goal layer is.\<close>

definition expansion_ok :: "'s planning_problem \<Rightarrow> nat \<Rightarrow> 's expansion \<Rightarrow> bool" where
  "expansion_ok prob n e \<longleftrightarrow>
     roadmap_ok prob (roadmap e) \<and> length (sets (roadmap e)) = n + 2
     \<and> (solved e \<longrightarrow> 1 \<in> set (is_start (roadmap e) ! Suc n))"

section \<open>Example inputs\<close>

text \<open>A state space at address 1 with no projection registered.\<close>

definition arm_space :: state_space where
  "arm_space = \<lparr>address = 1, default_projection = None\<rparr>"

text \<open>Constraint messages and constraint sets as lists of numbers: merging appends, and
  a set is empty when its list is.\<close>

definition list_constraints :: "(nat list, nat list) kinematic_constraints" where
  "list_constraints = \<lparr>mergeConstraints = (\<lambda>a b. a @ b), newConstraintSet = (\<lambda>m. m),
     empty = (\<lambda>k. k = [])\<rparr>"

text \<open>Specifications over \<open>arm_space\<close>: one whose manager finds no sampler and that has
  no constraints library; one whose manager finds sampler 3; and one that also has a
  library with an approximation that allocates sampler 7.\<close>

definition no_sampler_spec :: "(nat list, nat list, nat, nat) context_specification" where
  "no_sampler_spec = \<lparr>state_space = Some arm_space, constraints_library = None,
     constraint_sampler_manager = Some (\<lambda>k. None)\<rparr>"

definition manager_spec :: "(nat list, nat list, nat, nat) context_specification" where
  "manager_spec = \<lparr>state_space = Some arm_space, constraints_library = None,
     constraint_sampler_manager = Some (\<lambda>k. Some 3)\<rparr>"

definition approximated_spec :: "(nat list, nat list, nat, nat) context_specification" where
  "approximated_spec = \<lparr>state_space = Some arm_space,
     constraints_library = Some (\<lambda>m. Some (\<lambda>m. Some (\<lambda>ss. Some 7))),
     constraint_sampler_manager = Some (\<lambda>k. Some 3)\<rparr>"

text \<open>A context with no constraints, no goal, no planner allocator and nothing
  registered, for four planning threads; and the same with path constraints set.\<close>

definition bare_context :: "(nat list, nat list, nat, nat) planning_context" where
  "bare_context =
     \<lparr>path_constraints = None, path_constraints_msg = [], goal_constraints = [],
      goal = None, planner_allocator = False, solution_paths = [], parallel_planners = [],
      max_planning_threads = 4, ptc = None, calls = []\<rparr>"

definition constrained_context :: "(nat list, nat list, nat, nat) planning_context" where
  "constrained_context = bare_context\<lparr>path_constraints := Some [1], path_constraints_msg := [1]\<rparr>"

text \<open>An engine whose conditions answer \<open>false\<close> to \<open>p\<close> polls, whose simple setup
  times out, and whose parallel runs take no time and find an exact solution, except
  the run made when four calls are on record.\<close>

definition prompt_engine :: "nat \<Rightarrow> unit engine" where
  "prompt_engine p =
     \<lparr>timedPlannerTerminationCondition = (\<lambda>t. p), simple_setup_solve = (\<lambda>p. TIMEOUT),
      parallel_plan_solve = (\<lambda>i planners p. (if i = 4 then TIMEOUT else EXACT_SOLUTION, 0))\<rparr>"

text \<open>The contexts \<open>solve\<close> returns for ten runs on four threads: when the condition
  never fires, when it fires after the first batch, when it fires after the second, and
  when it has fired from the start.\<close>

definition ten_runs_context :: "(unit, unit, unit, nat) planning_context" where
  "ten_runs_context =
     (ready_context 4)\<lparr>parallel_planners := replicate 2 DefaultPlanner,
       calls := [RegisterTerminationCondition, Poll False,
          ParallelPlanSolve (replicate 4 DefaultPlanner) 1 4 EXACT_SOLUTION, Poll False,
          ParallelPlanSolve (replicate 4 DefaultPlanner) 1 4 TIMEOUT, Poll False,
          ParallelPlanSolve (replicate 2 DefaultPlanner) 1 2 EXACT_SOLUTION,
          UnregisterTerminationCondition]\<rparr>"

definition cut_short_context :: "(unit, unit, unit, nat) planning_context" where
  "cut_short_context =
     (ready_context 4)\<lparr>parallel_planners := replicate 4 DefaultPlanner,
       calls := [RegisterTerminationCondition, Poll False,
          ParallelPlanSolve (replicate 4 DefaultPlanner) 1 4 EXACT_SOLUTION,
          Poll True, Poll True, UnregisterTerminationCondition]\<rparr>"

definition two_batches_context :: "(unit, unit, unit, nat) planning_context" where
  "two_batches_context =
     (ready_context 4)\<lparr>parallel_planners := replicate 4 DefaultPlanner,
       calls := [RegisterTerminationCondition, Poll False,
          ParallelPlanSolve (replicate 4 DefaultPlanner) 1 4 EXACT_SOLUTION, Poll False,
          ParallelPlanSolve (replicate 4 DefaultPlanner) 1 4 TIMEOUT,
          Poll True, UnregisterTerminationCondition]\<rparr>"

definition fired_context :: "(unit, unit, unit, nat) planning_context" where
  "fired_context =
     (ready_context 4)\<lparr>calls := [RegisterTerminationCondition, Poll True, Poll True,
          UnregisterTerminationCondition]\<rparr>"



text \<open>A problem with one sampler over states that are numbers: a motion is valid from a
  number to its successor, the start state is 0 and the goal state 2. The sampler
  projects to 5 and samples 1, the distribution always draws layer 1.\<close>

definition gate_problem :: "nat planning_problem" where
  "gate_problem =
     \<lparr>goal_sampleable = True, start_states = [0], nextGoal = (\<lambda>t. Some 2),
      isValid = (\<lambda>s. True), checkMotion = (\<lambda>a b. b = Suc a),
      pdf_sample = (\<lambda>t. 1), goal_biased = (\<lambda>t. False)\<rparr>"

definition gate_sampler :: "nat valid_constrained_sampler" where
  "gate_sampler = \<lparr>sample = (\<lambda>t. Some 1), project = (\<lambda>t s. Some 5)\<rparr>"

section \<open>Properties of the projection grammar\<close>

text \<open>
  Claim C3: a description that has neither the exact prefix \<open>link(\<close> nor the exact prefix
  \<open>joints(\<close> yields no projection evaluator, and none is installed.

  The code does not do this. \<open>find_first_of\<close> compares the first character of the
  description with the characters of \<open>link(\<close>, one by one, so every description that
  starts with one of \<open>l\<close>, \<open>i\<close>, \<open>n\<close>, \<open>k\<close>, \<open>(\<close> and ends with \<open>)\<close> is read as a link
  description, its first five characters whatever they are. For \<open>kink(base)\<close> on a robot
  with a link \<open>base\<close>, \<open>getProjectionEvaluator\<close> returns the link pose projection and
  \<open>setProjectionEvaluator\<close> registers it.
\<close>

theorem getProjectionEvaluator_first_character:
  "\<not> matches_form ''link('' ''kink(base)'' \<and> \<not> matches_form ''joints('' ''kink(base)''
   \<and> getProjectionEvaluator (\<lambda>n. n = ''base'') (\<lambda>v. None) ''kink(base)''
       = Inr (Some (ProjectionEvaluatorLinkPose ''base''))
   \<and> setProjectionEvaluator (\<lambda>n. n = ''base'') (\<lambda>v. None) (Some arm_space) ''kink(base)''
       = Inr (Some (arm_space\<lparr>default_projection :=
                      Some (ProjectionEvaluatorLinkPose ''base'')\<rparr>))"
  by (simp add: matches_form_def getProjectionEvaluator_def setProjectionEvaluator_def
      substr_def size_t_sub_def registerDefaultProjection_def arm_space_def)

section \<open>Properties of the constraint setters\<close>

text \<open>
  Claim C10: for every constraints message \<open>setPathConstraints\<close> returns true, leaves
  its error output as it was, and replaces the stored path constraint set and the stored
  message; the other members of the context are not touched.
\<close>

theorem setPathConstraints_replaces:
  "setPathConstraints kc ctx msg error
     = (True,
        ctx\<lparr>path_constraints := Some (newConstraintSet kc msg), path_constraints_msg := msg\<rparr>,
        error)"
  by (simp add: setPathConstraints_def)

text \<open>
  Claim C4: when no goal sampler can be constructed, \<open>setGoalConstraints\<close> returns false
  and fills a supplied error output with \<open>INVALID_GOAL_CONSTRAINTS\<close>.

  The code writes the error only on its first exit, where no goal constraint set is left
  after merging. With one goal constraint set that is not empty and a manager that finds
  no sampler for it, \<open>constructGoal\<close> returns null and \<open>setGoalConstraints\<close> returns
  false, but the error output still holds the value it came with.
\<close>

theorem setGoalConstraints_error_untouched:
  "setGoalConstraints list_constraints no_sampler_spec bare_context [[7]] [] (Some SUCCESS)
     = (False, bare_context\<lparr>goal_constraints := [[7]]\<rparr>, Some SUCCESS)
   \<and> constructGoal no_sampler_spec (bare_context\<lparr>goal_constraints := [[7]]\<rparr>) = None"
  by (simp add: setGoalConstraints_def constructGoal_def list_constraints_def
      no_sampler_spec_def bare_context_def)

section \<open>Properties of the sampler allocation\<close>

text \<open>
  Claim C5, as stated, has the allocation return the sampler of the constraints library,
  a constrained sampler or the default sampler for every call. A call for a state space
  other than the context's own returns null instead: here the context's space is at
  address 1, the call is for address 2, path constraints are set and the library
  allocates sampler 7 for that address.
\<close>

theorem allocPathConstrainedSampler_counterexample:
  "path_constraints constrained_context = Some [1]
   \<and> precomputed_sampler approximated_spec (path_constraints_msg constrained_context) 2 = Some 7
   \<and> allocPathConstrainedSampler approximated_spec constrained_context 2 = (None, False)"
  by (simp add: allocPathConstrainedSampler_def precomputed_sampler_def approximated_spec_def
      constrained_context_def bare_context_def arm_space_def)

text \<open>
  Claim C5, amended: for a call for the context's own state space, with path constraints
  set, a sampler the library allocates is returned and the manager is not consulted;
  when the library yields none, a sampler the manager finds is wrapped in a constrained
  sampler; when the manager is absent or finds none, and when no path constraints are
  set, the default sampler of the space is returned. For a call for any other state
  space, null is returned and the manager is not consulted.
\<close>

theorem allocPathConstrainedSampler_priority:
  "(map_option address (state_space spec) = Some ss
      \<and> path_constraints ctx = Some pc
      \<and> precomputed_sampler spec (path_constraints_msg ctx) ss = Some res
    \<longrightarrow> allocPathConstrainedSampler spec ctx ss = (Some (Precomputed res), False))
   \<and> (map_option address (state_space spec) = Some ss
        \<and> path_constraints ctx = Some pc
        \<and> precomputed_sampler spec (path_constraints_msg ctx) ss = None
        \<and> constraint_sampler_manager spec = Some selectSampler
        \<and> selectSampler pc = Some cs
      \<longrightarrow> allocPathConstrainedSampler spec ctx ss = (Some (ConstrainedSampler cs), True))
   \<and> (map_option address (state_space spec) = Some ss
        \<and> path_constraints ctx = Some pc
        \<and> precomputed_sampler spec (path_constraints_msg ctx) ss = None
        \<and> (constraint_sampler_manager spec = None
             \<or> constraint_sampler_manager spec = Some selectSampler \<and> selectSampler pc = None)
      \<longrightarrow> fst (allocPathConstrainedSampler spec ctx ss) = Some DefaultStateSampler)
   \<and> (map_option address (state_space spec) = Some ss
        \<and> path_constraints ctx = None
      \<longrightarrow> allocPathConstrainedSampler spec ctx ss = (Some DefaultStateSampler, False))
   \<and> (map_option address (state_space spec) \<noteq> Some ss
      \<longrightarrow> allocPathConstrainedSampler spec ctx ss = (None, False))"
  by (auto simp: allocPathConstrainedSampler_def)

theorem allocPathConstrainedSampler_priority_witness:
  "allocPathConstrainedSampler approximated_spec constrained_context 1
     = (Some (Precomputed 7), False)
   \<and> allocPathConstrainedSampler manager_spec constrained_context 1
     = (Some (ConstrainedSampler 3), True)
   \<and> fst (allocPathConstrainedSampler no_sampler_spec constrained_context 1)
     = Some DefaultStateSampler
   \<and> allocPathConstrainedSampler approximated_spec bare_context 1
     = (Some DefaultStateSampler, False)
   \<and> allocPathConstrainedSampler manager_spec constrained_context 5 = (None, False)"
proof -
  have pc: "path_constraints constrained_context = Some [1]"
    and msg: "path_constraints_msg constrained_context = [1]"
    and no_pc: "path_constraints bare_context = None"
    by (simp_all add: constrained_context_def bare_context_def)
  have own: "map_option address (state_space approximated_spec) = Some 1"
    "map_option address (state_space manager_spec) = Some 1"
    "map_option address (state_space no_sampler_spec) = Some 1"
    by (simp_all add: approximated_spec_def manager_spec_def no_sampler_spec_def arm_space_def)
  have lib: "precomputed_sampler approximated_spec [1] 1 = Some 7"
    "precomputed_sampler manager_spec [1] 1 = None"
    "precomputed_sampler no_sampler_spec [1] 1 = None"
    by (simp_all add: precomputed_sampler_def approximated_spec_def manager_spec_def
        no_sampler_spec_def)
  have man: "constraint_sampler_manager manager_spec = Some (\<lambda>k. Some 3)"
    "constraint_sampler_manager no_sampler_spec = Some (\<lambda>k. None)"
    by (simp_all add: manager_spec_def no_sampler_spec_def)
  from allocPathConstrainedSampler_priority
    [of approximated_spec 1 constrained_context "[1]" 7] own(1) pc msg lib(1)
  have a: "allocPathConstrainedSampler approximated_spec constrained_context 1
      = (Some (Precomputed 7), False)"
    by simp
  from allocPathConstrainedSampler_priority
    [of manager_spec 1 constrained_context "[1]" _ "\<lambda>k. Some 3" 3] own(2) pc msg lib(2) man(1)
  have b: "allocPathConstrainedSampler manager_spec constrained_context 1
      = (Some (ConstrainedSampler 3), True)"
    by simp
  from allocPathConstrainedSampler_priority
    [of no_sampler_spec 1 constrained_context "[1]" _ "\<lambda>k. None"] own(3) pc msg lib(3) man(2)
  have c: "fst (allocPathConstrainedSampler no_sampler_spec constrained_context 1)
      = Some DefaultStateSampler"
    by simp
  from allocPathConstrainedSampler_priority [of approximated_spec 1 bare_context] own(1) no_pc
  have d: "allocPathConstrainedSampler approximated_spec bare_context 1
      = (Some DefaultStateSampler, False)"
    by simp
  from allocPathConstrainedSampler_priority [of manager_spec 5 constrained_context] own(2)
  have e: "allocPathConstrainedSampler manager_spec constrained_context 5 = (None, False)"
    by simp
  from a b c d e show ?thesis by simp
qed



section \<open>Properties of \<open>solve\<close>\<close>

subsection \<open>Machine integers\<close>

lemma sint_small: "unat (w :: 32 word) < 2 ^ 31 \<Longrightarrow> sint w = int (unat w)"
proof -
  assume a: "unat w < 2 ^ 31"
  have "int (unat w) < int (2 ^ 31)" using a by (simp only: of_nat_less_iff)
  then have "uint w < 2 ^ 31" by (simp only: uint_nat of_nat_power of_nat_numeral)
  moreover have "- (2 ^ 31) \<le> uint w"
    by (rule order_trans [of _ 0]) simp_all
  ultimately have "signed_take_bit 31 (uint w) = uint w"
    by (intro signed_take_bit_int_eq_self)
  moreover have "sint w = signed_take_bit 31 (uint w)"
    by (simp add: sint_uint)
  moreover have "uint w = int (unat w)"
    by (rule uint_nat)
  ultimately show ?thesis by (simp only:)
qed

lemma nat_sint_le: "nat (sint (w :: 32 word)) \<le> unat w"
proof -
  have "- (2 ^ 31) \<le> uint w"
    by (rule order_trans [of _ 0]) simp_all
  then have "signed_take_bit 31 (uint w) \<le> uint w"
    by (simp only: signed_take_bit_int_less_eq_self_iff)
  moreover have "sint w = signed_take_bit 31 (uint w)"
    by (simp add: sint_uint)
  moreover have "uint w = int (unat w)"
    by (rule uint_nat)
  ultimately have "sint w \<le> int (unat w)" by (simp only:)
  then show ?thesis by (simp only: nat_le_iff)
qed

lemma mod_small:
  assumes "0 < (b::nat)" "b < a" "a < 2 ^ 32"
  shows "a mod b < 2 ^ 31"
proof -
  have m: "a mod b < b" using assms(1) by simp
  have "1 \<le> a div b" using assms(1,2) by (simp add: div_greater_zero_iff Suc_leI)
  then have "b \<le> b * (a div b)" by simp
  moreover have "b * (a div b) + a mod b = a" by simp
  ultimately have "b + a mod b \<le> a" by linarith
  with m have "2 * (a mod b) < a" by linarith
  moreover have "(2::nat) ^ 32 = 2 * 2 ^ 31" by simp
  ultimately show ?thesis using assms(3) by linarith
qed

text \<open>A quotient that does not fit an \<open>int\<close> is a quotient by one.\<close>

lemma big_quotient:
  assumes "0 < (b::nat)" "a < 2 ^ 32" "\<not> a div b < 2 ^ 31"
  shows "b = 1"
proof (rule ccontr)
  assume "b \<noteq> 1"
  with assms(1) have "2 \<le> b" by simp
  then have "a div b \<le> a div 2" by (rule div_le_mono2 [rotated]) simp
  moreover have "(2::nat) ^ 32 = 2 * 2 ^ 31" by simp
  with assms(2) have "a div 2 < 2 ^ 31" by linarith
  ultimately show False using assms(3) by linarith
qed

subsection \<open>The record of calls\<close>

lemma batches_append: "batches (xs @ ys) = batches xs @ batches ys"
  by (induction xs rule: batches.induct) simp_all


lemma runs_after_fired_append:
  "runs_after_fired (xs @ ys)
     = (if Poll True \<in> set xs then runs_after_fired xs @ batches ys else runs_after_fired ys)"
  by (auto simp: runs_after_fired_def dropWhile_append batches_append)

lemma preSolve_cases:
  "preSolve ctx = (if goal ctx = None then Inl (NullDereference, ctx\<lparr>solution_paths := []\<rparr>)
                   else Inr (ctx\<lparr>solution_paths := []\<rparr>))"
  by (simp add: preSolve_def Let_def split: option.splits)

lemma postSolve_return_cases:
  "postSolve_return result ctx
     = (if goal ctx = None then Inl (NullDereference, ctx) else Inr (result, ctx))"
  by (simp add: postSolve_return_def postSolve_def split: option.splits)

subsection \<open>The two loops\<close>

lemma full_batches_run:
  "full_batches eng threads rounds (result, p, ctx) = (result', p', ctx') \<Longrightarrow>
     \<exists>new. calls ctx' = calls ctx @ new
       \<and> registrations new = [] \<and> ptc ctx' = ptc ctx \<and> goal ctx' = goal ctx
       \<and> result' = (result \<and> list_all snd (batches new))
       \<and> map fst (batches new) = replicate (length (batches new)) threads
       \<and> length (batches new) \<le> rounds
       \<and> (Poll True \<notin> set new \<longrightarrow> length (batches new) = rounds)
       \<and> (Poll True \<in> set new \<longrightarrow> p' = 0)
       \<and> runs_after_fired new = []"
proof (induction rounds arbitrary: result p ctx)
  case 0
  then show ?case by (simp add: registrations_def runs_after_fired_def)
next
  case (Suc rounds)
  show ?case
  proof (cases "p = 0")
    case True
    with Suc.prems have "calls ctx' = calls ctx @ [Poll True]" "ptc ctx' = ptc ctx"
      "goal ctx' = goal ctx" "result' = result" "p' = 0"
      by (auto simp: poll_def)
    then show ?thesis by (simp add: registrations_def runs_after_fired_def)
  next
    case False
    let ?pool = "replicate threads
        (if planner_allocator ctx then FromPlannerAllocator else DefaultPlanner)"
    obtain status used where o: "parallel_plan_solve eng (Suc (length (calls ctx))) ?pool (p - 1)
        = (status, used)"
      by (cases "parallel_plan_solve eng (Suc (length (calls ctx))) ?pool (p - 1)")
    let ?run = "[Poll False, ParallelPlanSolve ?pool 1 threads status]"
    define ctx2 where "ctx2 = ctx\<lparr>parallel_planners := ?pool, calls := calls ctx @ ?run\<rparr>"
    from False Suc.prems o have
      "full_batches eng threads rounds (result \<and> status = EXACT_SOLUTION, p - 1 - used, ctx2)
         = (result', p', ctx')"
      by (simp add: poll_def run_parallel_plan_def fill_planners_def ctx2_def)
    from Suc.IH [OF this] obtain new where
      n: "calls ctx' = calls ctx2 @ new" "registrations new = []" "ptc ctx' = ptc ctx2"
        "goal ctx' = goal ctx2"
        "result' = ((result \<and> status = EXACT_SOLUTION) \<and> list_all snd (batches new))"
        "map fst (batches new) = replicate (length (batches new)) threads"
        "length (batches new) \<le> rounds"
        "Poll True \<notin> set new \<longrightarrow> length (batches new) = rounds"
        "Poll True \<in> set new \<longrightarrow> p' = 0"
        "runs_after_fired new = []"
      by blast
    have "calls ctx' = calls ctx @ (?run @ new)"
      using n(1) by (simp add: ctx2_def)
    moreover have "registrations (?run @ new) = []"
      using n(2) by (simp add: registrations_def)
    moreover have "ptc ctx' = ptc ctx" "goal ctx' = goal ctx"
      using n(3,4) by (simp_all add: ctx2_def)
    moreover have "result' = (result \<and> list_all snd (batches (?run @ new)))"
      using n(5) by auto
    moreover have "map fst (batches (?run @ new))
        = replicate (length (batches (?run @ new))) threads"
      using n(6) by simp
    moreover have "length (batches (?run @ new)) \<le> Suc rounds"
      using n(7) by simp
    moreover have "Poll True \<notin> set (?run @ new)
        \<longrightarrow> length (batches (?run @ new)) = Suc rounds"
      using n(8) by simp
    moreover have "Poll True \<in> set (?run @ new) \<longrightarrow> p' = 0"
      using n(9) by simp
    moreover have "runs_after_fired (?run @ new) = []"
      using n(10) by (simp add: runs_after_fired_def)
    ultimately show ?thesis by blast
  qed
qed

lemma last_batch_run:
  assumes lb: "last_batch eng n (result, p, ctx) = (result', p', ctx')"
  shows "\<exists>new. calls ctx' = calls ctx @ new
       \<and> registrations new = [] \<and> ptc ctx' = ptc ctx \<and> goal ctx' = goal ctx
       \<and> result' = (result \<and> list_all snd (batches new))
       \<and> map fst (batches new) = (if batches new = [] then [] else [nat n])
       \<and> (Poll True \<notin> set new \<and> n \<noteq> 0 \<longrightarrow> batches new \<noteq> [])
       \<and> (p = 0 \<or> n = 0 \<longrightarrow> batches new = [])
       \<and> runs_after_fired new = []"
proof (cases "n = 0")
  case True
  with lb show ?thesis by (auto simp: registrations_def runs_after_fired_def)
next
  case n: False
  show ?thesis
  proof (cases "p = 0")
    case True
    with n lb have "calls ctx' = calls ctx @ [Poll True]" "ptc ctx' = ptc ctx"
      "goal ctx' = goal ctx" "result' = result"
      by (auto simp: poll_def)
    with True show ?thesis
      by (simp add: registrations_def runs_after_fired_def)
  next
    case False
    let ?pool = "replicate (nat n)
        (if planner_allocator ctx then FromPlannerAllocator else DefaultPlanner)"
    obtain status used where o: "parallel_plan_solve eng (Suc (length (calls ctx))) ?pool (p - 1)
        = (status, used)"
      by (cases "parallel_plan_solve eng (Suc (length (calls ctx))) ?pool (p - 1)")
    from lb n False o have "calls ctx' = calls ctx
          @ [Poll False, ParallelPlanSolve ?pool 1 (nat (n mod 2 ^ 32)) status]"
      "ptc ctx' = ptc ctx" "goal ctx' = goal ctx"
      "result' = (result \<and> status = EXACT_SOLUTION)"
      by (auto simp: poll_def run_parallel_plan_def fill_planners_def)
    with False n show ?thesis
      by (simp add: registrations_def runs_after_fired_def)
  qed
qed

subsection \<open>The three branches\<close>

text \<open>A call that returns in the branch \<open>count > max_planning_threads_\<close>: the calls it
  made are the registration, those of the loop, those of the last batch and the
  unregistration.\<close>

lemma solve_many:
  assumes ret: "solve eng ctx timeout count = Inr (result, ctx')"
    and c1: "\<not> count \<le> 1" and c2: "\<not> count \<le> max_planning_threads ctx"
  shows "\<exists>new1 new2.
      new_calls ctx ctx'
        = [RegisterTerminationCondition] @ new1 @ new2 @ [UnregisterTerminationCondition]
    \<and> ptc ctx' = None
    \<and> registrations new1 = [] \<and> registrations new2 = []
    \<and> result = (list_all snd (batches new1) \<and> list_all snd (batches new2))
    \<and> map fst (batches new1)
        = replicate (length (batches new1)) (unat (max_planning_threads ctx))
    \<and> length (batches new1) \<le> nat (sint (count div max_planning_threads ctx))
    \<and> (Poll True \<notin> set new1
         \<longrightarrow> length (batches new1) = nat (sint (count div max_planning_threads ctx)))
    \<and> map fst (batches new2)
        = (if batches new2 = [] then [] else [nat (sint (count mod max_planning_threads ctx))])
    \<and> (Poll True \<notin> set new2 \<and> sint (count mod max_planning_threads ctx) \<noteq> 0
         \<longrightarrow> batches new2 \<noteq> [])
    \<and> (Poll True \<in> set new1 \<or> sint (count mod max_planning_threads ctx) = 0
         \<longrightarrow> batches new2 = [])
    \<and> runs_after_fired new1 = [] \<and> runs_after_fired new2 = []"
proof -
  let ?m = "max_planning_threads ctx"
  let ?p = "timedPlannerTerminationCondition eng timeout"
  from ret have g: "goal ctx \<noteq> None"
    by (auto simp: solve_def preSolve_cases split: if_splits)
  define ctx1 where "ctx1 = registerTerminationCondition ?p (ctx\<lparr>solution_paths := []\<rparr>)"
  from ret c1 c2 g have m0: "?m \<noteq> 0"
    by (auto simp: solve_def preSolve_cases Let_def split: if_splits)
  obtain r1 p1 ctxa where fb: "full_batches eng (unat ?m) (nat (sint (count div ?m)))
      (True, ?p, ctx1) = (r1, p1, ctxa)"
    by (metis prod_cases3)
  obtain r2 p2 ctxb where lb: "last_batch eng (sint (count mod ?m)) (r1, p1, ctxa)
      = (r2, p2, ctxb)"
    by (metis prod_cases3)
  from ret c1 c2 g m0 fb lb
  have pr: "postSolve_return r2 (unregisterTerminationCondition ctxb) = Inr (result, ctx')"
    by (simp add: solve_def preSolve_cases Let_def ctx1_def [symmetric])
  then have res: "result = r2" and ctx': "ctx' = unregisterTerminationCondition ctxb"
    by (auto simp: postSolve_return_cases split: if_splits)
  from full_batches_run [OF fb] obtain new1 where
    a: "calls ctxa = calls ctx1 @ new1" "registrations new1 = []"
      "r1 = (True \<and> list_all snd (batches new1))"
      "map fst (batches new1) = replicate (length (batches new1)) (unat ?m)"
      "length (batches new1) \<le> nat (sint (count div ?m))"
      "Poll True \<notin> set new1 \<longrightarrow> length (batches new1) = nat (sint (count div ?m))"
      "Poll True \<in> set new1 \<longrightarrow> p1 = 0"
      "runs_after_fired new1 = []"
    by blast
  from last_batch_run [OF lb] obtain new2 where
    b: "calls ctxb = calls ctxa @ new2" "registrations new2 = []"
      "r2 = (r1 \<and> list_all snd (batches new2))"
      "map fst (batches new2)
         = (if batches new2 = [] then [] else [nat (sint (count mod ?m))])"
      "Poll True \<notin> set new2 \<and> sint (count mod ?m) \<noteq> 0 \<longrightarrow> batches new2 \<noteq> []"
      "p1 = 0 \<or> sint (count mod ?m) = 0 \<longrightarrow> batches new2 = []"
      "runs_after_fired new2 = []"
    by blast
  have "new_calls ctx ctx'
      = [RegisterTerminationCondition] @ new1 @ new2 @ [UnregisterTerminationCondition]"
    using a(1) b(1)
    by (simp add: new_calls_def ctx' unregisterTerminationCondition_def
        ctx1_def registerTerminationCondition_def)
  moreover have "ptc ctx' = None"
    by (simp add: ctx' unregisterTerminationCondition_def)
  moreover have "result = (list_all snd (batches new1) \<and> list_all snd (batches new2))"
    using res a(3) b(3) by simp
  moreover have "Poll True \<in> set new1 \<or> sint (count mod ?m) = 0 \<longrightarrow> batches new2 = []"
    using a(7) b(6) by blast
  ultimately show ?thesis
    using a(2,4,5,6,8) b(2,4,5,7) by blast
qed



text \<open>
  Claim C2, as stated, has every call with \<open>count > max_planning_threads_\<close> run all of
  its batches. Both loops poll the termination condition before a batch, and stop when
  it has fired: for ten runs on four threads, a goal set, and a condition that fires
  after its first poll, one batch of four runs, where the claim has batches of four, four
  and two.
\<close>

theorem solve_batches_counterexample:
  "solve (prompt_engine 1) (ready_context 4) () 10 = Inr (True, cut_short_context)
   \<and> map fst (batches (new_calls (ready_context 4) cut_short_context)) = [4]
   \<and> spec_batch_sizes 10 4 = [4, 4, 2]"
proof -
  have "solve (prompt_engine 1) (ready_context 4) () 10 = Inr (True, cut_short_context)"
    by code_simp
  moreover have "map fst (batches (new_calls (ready_context 4) cut_short_context)) = [4]"
    by code_simp
  moreover have "spec_batch_sizes 10 4 = [4, 4, 2]"
    by code_simp
  ultimately show ?thesis by simp
qed

text \<open>
  Claim C2, amended: for every call with \<open>count > max_planning_threads_ > 0\<close> that
  returns, the parallel runs are an initial part of the batches of the claim, \<open>count div
  max_planning_threads_\<close> batches of \<open>max_planning_threads_\<close> planners and, when it is
  not zero, one of \<open>count mod max_planning_threads_\<close> planners; no run is made after a
  poll of the termination condition has found it fired; when no poll finds it fired and
  the quotient \<open>count div max_planning_threads_\<close> fits an \<open>int\<close>, all the batches of the
  claim run; and the result is the conjunction of the results of the batches that ran,
  a batch succeeding when its run returns \<open>EXACT_SOLUTION\<close>.
\<close>

theorem solve_batches:
  assumes ret: "solve eng ctx timeout count = Inr (result, ctx')"
    and pos: "0 < max_planning_threads ctx"
    and more: "max_planning_threads ctx < count"
  shows "prefix (map fst (batches (new_calls ctx ctx')))
           (spec_batch_sizes (unat count) (unat (max_planning_threads ctx)))
       \<and> runs_after_fired (new_calls ctx ctx') = []
       \<and> (Poll True \<notin> set (new_calls ctx ctx')
            \<and> unat count div unat (max_planning_threads ctx) < 2 ^ 31
          \<longrightarrow> map fst (batches (new_calls ctx ctx'))
                = spec_batch_sizes (unat count) (unat (max_planning_threads ctx)))
       \<and> result = list_all snd (batches (new_calls ctx ctx'))"
proof -
  let ?m = "max_planning_threads ctx"
  let ?M = "unat ?m"
  let ?Q = "unat count div ?M"
  let ?R = "nat (sint (count div ?m))"
  let ?n = "sint (count mod ?m)"
  let ?nc = "new_calls ctx ctx'"
  have upos: "0 < ?M" using pos by (simp add: word_less_nat_alt)
  have umore: "?M < unat count" using more by (simp add: word_less_nat_alt)
  have c1: "\<not> count \<le> 1"
  proof
    assume "count \<le> 1"
    then have "unat count \<le> 1" by (simp add: word_le_nat_alt)
    with upos umore show False by linarith
  qed
  have c2: "\<not> count \<le> ?m" using more by auto
  have ubound: "unat count < 2 ^ 32" using unsigned_less [of count] by simp
  with upos umore have "unat count mod ?M < 2 ^ 31" by (rule mod_small)
  then have n: "?n = int (unat count mod ?M)"
    by (simp add: sint_small unat_mod)
  have RQ: "?R \<le> ?Q" using nat_sint_le [of "count div ?m"] by (simp add: unat_div)
  have fits: "?R = ?Q" if "?Q < 2 ^ 31"
    using that by (simp add: sint_small unat_div)
  have nofit: "unat count mod ?M = 0" if "\<not> ?Q < 2 ^ 31"
  proof -
    from upos ubound that have "?M = 1" by (rule big_quotient)
    then show ?thesis by simp
  qed
  from solve_many [OF ret c1 c2] obtain new1 new2 where
    nc: "?nc = [RegisterTerminationCondition] @ new1 @ new2 @ [UnregisterTerminationCondition]"
    and res: "result = (list_all snd (batches new1) \<and> list_all snd (batches new2))"
    and s1: "map fst (batches new1) = replicate (length (batches new1)) ?M"
    and k: "length (batches new1) \<le> ?R"
    and full1: "Poll True \<notin> set new1 \<longrightarrow> length (batches new1) = ?R"
    and s2: "map fst (batches new2) = (if batches new2 = [] then [] else [nat ?n])"
    and full2: "Poll True \<notin> set new2 \<and> ?n \<noteq> 0 \<longrightarrow> batches new2 \<noteq> []"
    and skip2: "Poll True \<in> set new1 \<or> ?n = 0 \<longrightarrow> batches new2 = []"
    and r1: "runs_after_fired new1 = []" and r2: "runs_after_fired new2 = []"
    by blast
  have b: "batches ?nc = batches new1 @ batches new2"
    by (simp add: nc batches_append)
  have sizes: "map fst (batches ?nc)
      = replicate (length (batches new1)) ?M @ map fst (batches new2)"
    using s1 by (simp add: b)
  have a: "prefix (map fst (batches ?nc)) (spec_batch_sizes (unat count) ?M)"
  proof (cases "batches new2 = []")
    case True
    from k RQ have "length (batches new1) \<le> ?Q" by simp
    then have "replicate ?Q ?M
        = replicate (length (batches new1)) ?M @ replicate (?Q - length (batches new1)) ?M"
      by (simp add: replicate_add [symmetric])
    then have "spec_batch_sizes (unat count) ?M
        = replicate (length (batches new1)) ?M
            @ (replicate (?Q - length (batches new1)) ?M
                @ (if unat count mod ?M = 0 then [] else [unat count mod ?M]))"
      by (simp add: spec_batch_sizes_def)
    moreover have "map fst (batches ?nc) = replicate (length (batches new1)) ?M"
      using True sizes by simp
    ultimately show ?thesis by (metis prefixI)
  next
    case False
    with skip2 have running: "Poll True \<notin> set new1" and n0: "?n \<noteq> 0" by auto
    from n0 n have "unat count mod ?M \<noteq> 0" by simp
    with nofit have "?Q < 2 ^ 31" by blast
    then have "?R = ?Q" by (rule fits)
    with running full1 have "length (batches new1) = ?Q" by simp
    moreover have "map fst (batches new2) = [unat count mod ?M]"
      using False s2 n by simp
    ultimately have "map fst (batches ?nc) = spec_batch_sizes (unat count) ?M"
      using sizes \<open>unat count mod ?M \<noteq> 0\<close> by (simp add: spec_batch_sizes_def)
    then show ?thesis by simp
  qed
  have "runs_after_fired ?nc = runs_after_fired (new1 @ new2 @ [UnregisterTerminationCondition])"
    by (simp add: nc runs_after_fired_def)
  also have "\<dots> = []"
    using r1 r2 skip2
    by (simp add: runs_after_fired_append batches_append) (simp add: runs_after_fired_def)
  finally have c: "runs_after_fired ?nc = []" .
  have d: "map fst (batches ?nc) = spec_batch_sizes (unat count) ?M"
    if run: "Poll True \<notin> set ?nc" and q: "?Q < 2 ^ 31"
  proof -
    from run have p1: "Poll True \<notin> set new1" and p2: "Poll True \<notin> set new2"
      by (simp_all add: nc)
    from p1 full1 fits [OF q] have "length (batches new1) = ?Q" by simp
    moreover have "map fst (batches new2)
        = (if unat count mod ?M = 0 then [] else [unat count mod ?M])"
    proof (cases "unat count mod ?M = 0")
      case True
      with n skip2 show ?thesis by simp
    next
      case False
      with n p2 full2 have "batches new2 \<noteq> []" by simp
      with s2 n False show ?thesis by simp
    qed
    ultimately show ?thesis using sizes by (simp add: spec_batch_sizes_def)
  qed
  have e: "result = list_all snd (batches ?nc)"
    using res by (simp add: b)
  from a c d e show ?thesis by blast
qed

theorem solve_batches_witness:
  "solve (prompt_engine 5) (ready_context 4) () 10 = Inr (False, ten_runs_context)
   \<and> Poll True \<notin> set (new_calls (ready_context 4) ten_runs_context)
   \<and> map fst (batches (new_calls (ready_context 4) ten_runs_context)) = [4, 4, 2]
   \<and> False = list_all snd (batches (new_calls (ready_context 4) ten_runs_context))
   \<and> solve (prompt_engine 2) (ready_context 4) () 10 = Inr (False, two_batches_context)
   \<and> prefix (map fst (batches (new_calls (ready_context 4) two_batches_context))) [4, 4, 2]
   \<and> runs_after_fired (new_calls (ready_context 4) two_batches_context) = []
   \<and> False = list_all snd (batches (new_calls (ready_context 4) two_batches_context))"
proof -
  have s: "solve (prompt_engine 5) (ready_context 4) () 10 = Inr (False, ten_runs_context)"
    by code_simp
  have t: "solve (prompt_engine 2) (ready_context 4) () 10 = Inr (False, two_batches_context)"
    by code_simp
  have m: "0 < max_planning_threads (ready_context 4)"
    "max_planning_threads (ready_context 4) < 10"
    by (simp_all add: ready_context_def)
  have r: "Poll True \<notin> set (new_calls (ready_context 4) ten_runs_context)"
    by (simp add: ready_context_def new_calls_def ten_runs_context_def)
  have q: "unat (10 :: 32 word) div unat (max_planning_threads (ready_context 4)) < 2 ^ 31"
    by (simp add: ready_context_def)
  have sizes: "spec_batch_sizes (unat (10 :: 32 word))
      (unat (max_planning_threads (ready_context 4))) = [4, 4, 2]"
    by code_simp
  from solve_batches [OF s m] r q
  have "map fst (batches (new_calls (ready_context 4) ten_runs_context))
          = spec_batch_sizes (unat (10 :: 32 word)) (unat (max_planning_threads (ready_context 4)))"
    and "False = list_all snd (batches (new_calls (ready_context 4) ten_runs_context))"
    by blast+
  moreover from solve_batches [OF t m]
  have "prefix (map fst (batches (new_calls (ready_context 4) two_batches_context)))
          (spec_batch_sizes (unat (10 :: 32 word)) (unat (max_planning_threads (ready_context 4))))"
    and "runs_after_fired (new_calls (ready_context 4) two_batches_context) = []"
    and "False = list_all snd (batches (new_calls (ready_context 4) two_batches_context))"
    by blast+
  ultimately show ?thesis using s t r by (simp only: sizes simp_thms)
qed

text \<open>
  Claim C6: a call during which the termination condition fires before a solution is
  found returns false.

  In the branch \<open>count > max_planning_threads_\<close> the result starts as true and only a
  batch can make it false. On a context with a goal, when the condition has fired by the
  first poll (a timeout that has already passed, or \<open>terminateSolve\<close> right after the
  registration) no batch runs: \<open>solve\<close> returns true although no planner ran and the
  problem definition holds no solution path. The other two branches return the
  comparison of a solver's status with \<open>EXACT_SOLUTION\<close>.
\<close>

theorem solve_fired_returns_true:
  "goal (ready_context 4) = Some (ConstrainedGoalSampler () ())
   \<and> solve (prompt_engine 0) (ready_context 4) () 10 = Inr (True, fired_context)
   \<and> batches (calls fired_context) = []
   \<and> solution_paths fired_context = []"
proof -
  have "solve (prompt_engine 0) (ready_context 4) () 10 = Inr (True, fired_context)"
    by code_simp
  moreover have "batches (calls fired_context) = []"
    by code_simp
  moreover have "solution_paths fired_context = []"
    "goal (ready_context 4) = Some (ConstrainedGoalSampler () ())"
    by (simp_all add: fired_context_def ready_context_def)
  ultimately show ?thesis by simp
qed
section \<open>Properties of the registration of termination conditions\<close>




section \<open>Properties of \<open>follow\<close>\<close>

text \<open>
  Claim C9: \<open>follow\<close> never reads its \<open>count\<close> argument. For the same engine, problem,
  samplers, context and timeout, two calls with different counts return the same result and leave
  the same context.
\<close>
theorem follow_ignores_count:
  "follow eng prob samplers ctx timeout c1 = follow eng prob samplers ctx timeout c2"
  by (simp add: follow_def)

section \<open>Properties of the Follower\<close>

subsection \<open>Vectors and flags\<close>

lemma length_push_back_at [simp]: "length (push_back_at i x vs) = length vs"
  by (simp add: push_back_at_def)

lemma nth_push_back_at:
  "j < length vs \<Longrightarrow> push_back_at i x vs ! j = (if j = i then vs ! i @ [x] else vs ! j)"
  by (simp add: push_back_at_def)

lemma length_set_flag [simp]: "length (set_flag i j flags) = length flags"
  by (simp add: set_flag_def)

lemma length_nth_set_flag [simp]: "length (set_flag i j flags ! a) = length (flags ! a)"
  by (cases "i < length flags"; cases "a = i") (simp_all add: set_flag_def list_update_beyond)

lemma nth_set_flag:
  "a < length flags \<Longrightarrow> b < length (flags ! a) \<Longrightarrow>
     set_flag i j flags ! a ! b = (if a = i \<and> b = j then 1 else flags ! a ! b)"
  by (cases "a = i"; cases "b = j") (simp_all add: set_flag_def)

lemma fold_invariant:
  "I s \<Longrightarrow> (\<And>x s. x \<in> set xs \<Longrightarrow> I s \<Longrightarrow> I (f x s)) \<Longrightarrow> I (fold f xs s)"
  by (induction xs arbitrary: s) simp_all

lemma reach_extends: "reach conns i j \<Longrightarrow> extends conns conns' \<Longrightarrow> reach conns' i j"
proof (induction rule: reach.induct)
  case (reach_start j)
  show ?case by (rule reach.reach_start)
next
  case (reach_edge i j k)
  from reach_edge.prems reach_edge.hyps(2,3,4)
  have "i < length conns'" "j < length (conns' ! i)" "k \<in> set (conns' ! i ! j)"
    by (auto simp: extends_def)
  with reach_edge.IH [OF reach_edge.prems] show ?case
    by (rule reach.reach_edge)
qed

lemma marked_extends: "marked conns flags \<Longrightarrow> extends conns conns' \<Longrightarrow> marked conns' flags"
  by (auto simp: marked_def intro: reach_extends)

lemma flagged_set_flag: "flagged layers flags \<Longrightarrow> flagged layers (set_flag i j flags)"
  by (simp add: flagged_def)

lemma marked_set_flag:
  "marked conns flags \<Longrightarrow> reach conns i j \<Longrightarrow> marked conns (set_flag i j flags)"
  unfolding marked_def
proof (intro allI impI)
  fix a b
  assume m: "\<forall>i<length flags. \<forall>j<length (flags ! i). flags ! i ! j = 1 \<longrightarrow> reach conns i j"
    and r: "reach conns i j"
    and a: "a < length (set_flag i j flags)" and b: "b < length (set_flag i j flags ! a)"
    and one: "set_flag i j flags ! a ! b = 1"
  from a b have a': "a < length flags" and b': "b < length (flags ! a)" by simp_all
  show "reach conns a b"
  proof (cases "a = i \<and> b = j")
    case True
    with r show ?thesis by simp
  next
    case False
    with one a' b' have "flags ! a ! b = 1" by (simp add: nth_set_flag)
    with m a' b' show ?thesis by blast
  qed
qed

lemma propagateStartInfo_keeps:
  "shaped layers conns \<Longrightarrow> sound prob layers conns
    \<Longrightarrow> flagged layers flags \<Longrightarrow> marked conns flags \<Longrightarrow> reach conns si ei
    \<Longrightarrow> (si < length conns \<longrightarrow> ei < length (conns ! si))
    \<Longrightarrow> flagged layers (propagateStartInfo si ei flags conns)
        \<and> marked conns (propagateStartInfo si ei flags conns)"
proof (induction si ei flags conns rule: propagateStartInfo.induct)
  case (1 si ei flags conns)
  note shp = "1.prems"(1) and snd = "1.prems"(2)
  show ?case
  proof (cases "length conns \<le> si")
    case True
    with "1.prems" show ?thesis by (subst (1 2) propagateStartInfo.simps) simp
  next
    case False
    then have si: "si < length conns" by simp
    with "1.prems"(6) have ei: "ei < length (conns ! si)" by simp
    let ?I = "\<lambda>f. flagged layers f \<and> marked conns f"
    have "?I (fold (\<lambda>c flags'. propagateStartInfo (Suc si) c (set_flag (Suc si) c flags') conns)
             (conns ! si ! ei) flags)"
    proof (rule fold_invariant [where I = ?I])
      show "?I flags" using "1.prems" by simp
    next
      fix c f
      assume c: "c \<in> set (conns ! si ! ei)" and f: "?I f"
      from "1.prems"(5) si ei c have rc: "reach conns (Suc si) c"
        by (rule reach.reach_edge)
      have rng: "Suc si < length conns \<longrightarrow> c < length (conns ! Suc si)"
      proof
        assume s2: "Suc si < length conns"
        from snd si ei c have "c < length (layers ! Suc si)"
          unfolding sound_def by blast
        moreover from shp s2 have "length (conns ! Suc si) = length (layers ! Suc si)"
          unfolding shaped_def by blast
        ultimately show "c < length (conns ! Suc si)" by simp
      qed
      from f have "flagged layers (set_flag (Suc si) c f)"
        and "marked conns (set_flag (Suc si) c f)"
        using rc by (simp_all add: flagged_set_flag marked_set_flag)
      with False c shp snd rc rng
      show "?I (propagateStartInfo (Suc si) c (set_flag (Suc si) c f) conns)"
        by (intro "1.IH")
    qed
    with False show ?thesis by (subst (1 2) propagateStartInfo.simps) simp
  qed
qed

subsection \<open>Edges\<close>

lemma length_push_edge [simp]: "length (push_edge i j k conns) = length conns"
  by (simp add: push_edge_def)

lemma length_nth_push_edge [simp]: "length (push_edge i j k conns ! a) = length (conns ! a)"
  by (cases "i < length conns"; cases "a = i")
    (simp_all add: push_edge_def list_update_beyond)

lemma nth_push_edge:
  "a < length conns \<Longrightarrow> b < length (conns ! a) \<Longrightarrow>
     push_edge i j k conns ! a ! b = (if a = i \<and> b = j then conns ! i ! j @ [k] else conns ! a ! b)"
  by (cases "a = i"; cases "b = j") (simp_all add: push_edge_def push_back_at_def)

lemma extends_push_edge: "extends conns (push_edge i j k conns)"
  by (auto simp: extends_def nth_push_edge)

lemma shaped_push_edge: "shaped layers conns \<Longrightarrow> shaped layers (push_edge i j k conns)"
  by (simp add: shaped_def)

lemma sound_push_edge:
  assumes "sound prob layers conns" and "k < length (layers ! Suc i)"
    and "checkMotion prob (layers ! i ! j) (layers ! Suc i ! k)"
  shows "sound prob layers (push_edge i j k conns)"
  unfolding sound_def
proof (intro allI impI ballI)
  fix a b c
  assume a: "a < length (push_edge i j k conns)"
    and b: "b < length (push_edge i j k conns ! a)"
    and c: "c \<in> set (push_edge i j k conns ! a ! b)"
  from a b have a': "a < length conns" and b': "b < length (conns ! a)" by simp_all
  show "c < length (layers ! Suc a) \<and> checkMotion prob (layers ! a ! b) (layers ! Suc a ! c)"
  proof (cases "a = i \<and> b = j \<and> c = k")
    case True
    with assms(2,3) show ?thesis by simp
  next
    case False
    with c a' b' have "c \<in> set (conns ! a ! b)"
      by (auto simp: nth_push_edge split: if_splits)
    with assms(1) a' b' show ?thesis unfolding sound_def by blast
  qed
qed

lemma reach_push_edge:
  "reach conns i j \<Longrightarrow> i < length conns \<Longrightarrow> j < length (conns ! i)
     \<Longrightarrow> reach (push_edge i j k conns) (Suc i) k"
proof -
  assume r: "reach conns i j" and i: "i < length conns" and j: "j < length (conns ! i)"
  from r have "reach (push_edge i j k conns) i j"
    by (rule reach_extends) (rule extends_push_edge)
  moreover have "k \<in> set (push_edge i j k conns ! i ! j)"
    using i j by (simp add: nth_push_edge)
  ultimately show ?thesis using i j by (intro reach.reach_edge) simp_all
qed

lemma sets_link_prev [simp]: "sets (link_prev prob index aei i r) = sets r"
  by (simp add: link_prev_def Let_def)

lemma sets_link_next [simp]: "sets (link_next prob index aei i r) = sets r"
  by (simp add: link_next_def Let_def)

lemma link_prev_ok:
  assumes ok: "roadmap_ok prob r"
    and index: "0 < index" "index < length (sets r)"
    and i: "i < length (sets r ! (index - 1))"
    and aei: "aei = length (sets r ! index) - 1"
  shows "roadmap_ok prob (link_prev prob index aei i r)"
proof (cases "checkMotion prob (sets r ! (index - 1) ! i) (last (sets r ! index))")
  case False
  with ok show ?thesis by (simp add: link_prev_def)
next
  case True
  let ?conns = "push_edge (index - 1) i aei (connections r)"
  from ok have shp: "shaped (sets r) (connections r)" and flg: "flagged (sets r) (is_start r)"
    and snd: "sound prob (sets r) (connections r)" and mrk: "marked (connections r) (is_start r)"
    by (simp_all add: roadmap_ok_def)
  from shp index have pi: "index - 1 < length (connections r)" and Si: "Suc (index - 1) = index"
    by (simp_all add: shaped_def)
  from shp pi i have ci: "i < length (connections r ! (index - 1))" by (simp add: shaped_def)
  from shp index have ne: "sets r ! index \<noteq> []" by (simp add: shaped_def)
  then have ar: "aei < length (sets r ! index)" and la: "last (sets r ! index) = sets r ! index ! aei"
    using aei by (simp_all add: last_conv_nth)
  have shp': "shaped (sets r) ?conns" using shp by (rule shaped_push_edge)
  have snd': "sound prob (sets r) ?conns"
  proof (rule sound_push_edge [OF snd])
    show "aei < length (sets r ! Suc (index - 1))"
      unfolding Si by (rule ar)
    show "checkMotion prob (sets r ! (index - 1) ! i) (sets r ! Suc (index - 1) ! aei)"
      unfolding Si using True la by simp
  qed
  have mrk': "marked ?conns (is_start r)"
    using mrk by (rule marked_extends) (rule extends_push_edge)
  show ?thesis
  proof (cases "is_start r ! (index - 1) ! i = 1")
    case False
    with True shp' snd' mrk' flg show ?thesis
      by (simp add: link_prev_def Let_def roadmap_ok_def)
  next
    case one: True
    from flg index i have "index - 1 < length (is_start r)" "i < length (is_start r ! (index - 1))"
      by (simp_all add: flagged_def)
    with mrk one have "reach (connections r) (index - 1) i" by (simp add: marked_def)
    then have "reach ?conns (Suc (index - 1)) aei" using pi ci by (rule reach_push_edge)
    then have rc: "reach ?conns index aei" by (simp only: Si)
    have rng: "index < length ?conns \<longrightarrow> aei < length (?conns ! index)"
      using shp ar by (simp add: shaped_def)
    have "flagged (sets r) (set_flag index aei (is_start r))"
      using flg by (rule flagged_set_flag)
    moreover have "marked ?conns (set_flag index aei (is_start r))"
      using mrk' rc by (rule marked_set_flag)
    ultimately have "flagged (sets r) (propagateStartInfo index aei (set_flag index aei (is_start r)) ?conns)
        \<and> marked ?conns (propagateStartInfo index aei (set_flag index aei (is_start r)) ?conns)"
      using shp' snd' rc rng by (intro propagateStartInfo_keeps)
    with True one shp' snd' show ?thesis
      by (simp add: link_prev_def Let_def roadmap_ok_def)
  qed
qed

lemma link_next_ok:
  assumes ok: "roadmap_ok prob r"
    and index: "Suc index < length (sets r)"
    and i: "i < length (sets r ! Suc index)"
    and aei: "aei = length (sets r ! index) - 1"
  shows "roadmap_ok prob (link_next prob index aei i r)"
proof (cases "checkMotion prob (last (sets r ! index)) (sets r ! Suc index ! i)")
  case False
  with ok show ?thesis by (simp add: link_next_def)
next
  case True
  let ?conns = "push_edge index aei i (connections r)"
  from ok have shp: "shaped (sets r) (connections r)" and flg: "flagged (sets r) (is_start r)"
    and snd: "sound prob (sets r) (connections r)" and mrk: "marked (connections r) (is_start r)"
    by (simp_all add: roadmap_ok_def)
  from shp index have pi: "index < length (connections r)" by (simp add: shaped_def)
  from shp index have ne: "sets r ! index \<noteq> []" by (simp add: shaped_def)
  then have ar: "aei < length (sets r ! index)" and la: "last (sets r ! index) = sets r ! index ! aei"
    using aei by (simp_all add: last_conv_nth)
  from shp pi ar have ca: "aei < length (connections r ! index)" by (simp add: shaped_def)
  have shp': "shaped (sets r) ?conns" using shp by (rule shaped_push_edge)
  have snd': "sound prob (sets r) ?conns"
    using snd i True by (intro sound_push_edge) (simp_all add: la)
  have mrk': "marked ?conns (is_start r)"
    using mrk by (rule marked_extends) (rule extends_push_edge)
  show ?thesis
  proof (cases "is_start r ! index ! aei = 1 \<and> is_start r ! Suc index ! i = 0")
    case False
    with True shp' snd' mrk' flg show ?thesis
      by (auto simp: link_next_def Let_def roadmap_ok_def)
  next
    case one: True
    from flg index ar have "index < length (is_start r)" "aei < length (is_start r ! index)"
      by (simp_all add: flagged_def)
    with mrk one have "reach (connections r) index aei" by (simp add: marked_def)
    then have rc: "reach ?conns (Suc index) i" using pi ca by (rule reach_push_edge)
    have rng: "Suc index < length ?conns \<longrightarrow> i < length (?conns ! Suc index)"
      using shp i by (simp add: shaped_def)
    have "flagged (sets r) (set_flag (Suc index) i (is_start r))"
      using flg by (rule flagged_set_flag)
    moreover have "marked ?conns (set_flag (Suc index) i (is_start r))"
      using mrk' rc by (rule marked_set_flag)
    ultimately have "flagged (sets r) (propagateStartInfo (Suc index) i (set_flag (Suc index) i (is_start r)) ?conns)
        \<and> marked ?conns (propagateStartInfo (Suc index) i (set_flag (Suc index) i (is_start r)) ?conns)"
      using shp' snd' rc rng by (intro propagateStartInfo_keeps)
    with True one shp' snd' show ?thesis
      by (simp add: link_next_def Let_def roadmap_ok_def)
  qed
qed

lemma connect_added_ok:
  assumes ok: "roadmap_ok prob r" and index: "0 < index" "index < length (sets r)"
  shows "roadmap_ok prob (connect_added prob index r) \<and> sets (connect_added prob index r) = sets r"
proof -
  let ?aei = "length (sets r ! index) - 1"
  let ?I = "\<lambda>r'. roadmap_ok prob r' \<and> sets r' = sets r"
  let ?r1 = "fold (link_prev prob index ?aei) [0..<length (sets r ! (index - 1))] r"
  have r1: "?I ?r1"
  proof (rule fold_invariant [where I = ?I])
    show "?I r" using ok by simp
  next
    fix i r'
    assume "i \<in> set [0..<length (sets r ! (index - 1))]" and "?I r'"
    with index show "?I (link_prev prob index ?aei i r')"
      by (simp add: link_prev_ok)
  qed
  show ?thesis
  proof (cases "index < length (sets r) - 1")
    case False
    with r1 show ?thesis by (simp add: connect_added_def Let_def)
  next
    case True
    have "?I (fold (link_next prob index ?aei) [0..<length (sets ?r1 ! Suc index)] ?r1)"
    proof (rule fold_invariant [where I = ?I])
      show "?I ?r1" by (rule r1)
    next
      fix i r'
      assume "i \<in> set [0..<length (sets ?r1 ! Suc index)]" and "?I r'"
      with True r1 show "?I (link_next prob index ?aei i r')"
        by (simp add: link_next_ok)
    qed
    with True show ?thesis by (simp add: connect_added_def Let_def)
  qed
qed

subsection \<open>Additions and the rounds of the expansion\<close>

lemma nth_nth_push_back_at:
  "j < length (vs ! i) \<Longrightarrow> push_back_at a x vs ! i ! j = vs ! i ! j"
  by (cases "i = a"; cases "a < length vs")
    (simp_all add: push_back_at_def nth_append list_update_beyond)

lemma length_nth_push_back_at:
  "length (push_back_at a x vs ! i)
     = (if i = a \<and> a < length vs then Suc (length (vs ! a)) else length (vs ! i))"
  by (cases "i = a"; cases "a < length vs")
    (simp_all add: push_back_at_def list_update_beyond)

lemma push_back_at_nonempty: "vs ! i \<noteq> [] \<Longrightarrow> push_back_at a x vs ! i \<noteq> []"
  by (cases "i = a"; cases "a < length vs")
    (simp_all add: push_back_at_def list_update_beyond)

lemma sound_push_layer:
  assumes "shaped layers conns" and "sound prob layers conns"
  shows "sound prob (push_back_at a x layers) conns"
  unfolding sound_def
proof (intro allI impI ballI)
  fix i j k
  assume i: "i < length conns" and j: "j < length (conns ! i)" and k: "k \<in> set (conns ! i ! j)"
  from assms(2) i j k have kr: "k < length (layers ! Suc i)"
    and cm: "checkMotion prob (layers ! i ! j) (layers ! Suc i ! k)"
    unfolding sound_def by blast+
  from assms(1) i j have jr: "j < length (layers ! i)" by (simp add: shaped_def)
  from kr have "k < length (push_back_at a x layers ! Suc i)"
    by (auto simp: length_nth_push_back_at)
  moreover from cm jr kr
  have "checkMotion prob (push_back_at a x layers ! i ! j) (push_back_at a x layers ! Suc i ! k)"
    by (simp add: nth_nth_push_back_at)
  ultimately show "k < length (push_back_at a x layers ! Suc i)
      \<and> checkMotion prob (push_back_at a x layers ! i ! j) (push_back_at a x layers ! Suc i ! k)"
    by simp
qed

lemma sound_push_row:
  assumes "sound prob layers conns"
  shows "sound prob layers (push_back_at a [] conns)"
  unfolding sound_def
proof (intro allI impI ballI)
  fix i j k
  assume i: "i < length (push_back_at a [] conns)"
    and j: "j < length (push_back_at a [] conns ! i)"
    and k: "k \<in> set (push_back_at a [] conns ! i ! j)"
  from i have i': "i < length conns" by simp
  have j': "j < length (conns ! i)"
  proof (rule ccontr)
    assume "\<not> j < length (conns ! i)"
    with j i' have "i = a" and "j = length (conns ! a)"
      by (auto simp: length_nth_push_back_at split: if_splits)
    with i' k show False by (simp add: push_back_at_def)
  qed
  with k have "k \<in> set (conns ! i ! j)" by (simp add: nth_nth_push_back_at)
  with assms i' j' show "k < length (layers ! Suc i)
      \<and> checkMotion prob (layers ! i ! j) (layers ! Suc i ! k)"
    unfolding sound_def by blast
qed

lemma extends_push_row: "extends conns (push_back_at a [] conns)"
  by (auto simp: extends_def length_nth_push_back_at nth_nth_push_back_at)

lemma marked_push_flag:
  assumes "marked conns flags"
  shows "marked conns (push_back_at a 0 flags)"
  unfolding marked_def
proof (intro allI impI)
  fix i j
  assume i: "i < length (push_back_at a 0 flags)"
    and j: "j < length (push_back_at a 0 flags ! i)"
    and one: "push_back_at a 0 flags ! i ! j = 1"
  from i have i': "i < length flags" by simp
  have j': "j < length (flags ! i)"
  proof (rule ccontr)
    assume "\<not> j < length (flags ! i)"
    with j i' have "i = a" and "j = length (flags ! a)"
      by (auto simp: length_nth_push_back_at split: if_splits)
    with i' one show False by (simp add: push_back_at_def)
  qed
  with one have "flags ! i ! j = 1" by (simp add: nth_nth_push_back_at)
  with assms i' j' show "reach conns i j" by (simp add: marked_def)
qed

lemma add_goal_ok:
  assumes ok: "roadmap_ok prob r"
  shows "roadmap_ok prob
    (r\<lparr>sets := push_back_at (length (sets r) - 1) st (sets r),
       is_start := push_back_at (length (sets r) - 1) 0 (is_start r)\<rparr>)"
proof -
  let ?g = "length (sets r) - 1"
  from ok have shp: "shaped (sets r) (connections r)" and flg: "flagged (sets r) (is_start r)"
    and snd: "sound prob (sets r) (connections r)" and mrk: "marked (connections r) (is_start r)"
    by (simp_all add: roadmap_ok_def)
  have "shaped (push_back_at ?g st (sets r)) (connections r)"
    using shp by (auto simp: shaped_def length_nth_push_back_at push_back_at_nonempty)
  moreover have "flagged (push_back_at ?g st (sets r)) (push_back_at ?g 0 (is_start r))"
    using flg by (auto simp: flagged_def length_nth_push_back_at)
  moreover have "sound prob (push_back_at ?g st (sets r)) (connections r)"
    using shp snd by (rule sound_push_layer)
  moreover have "marked (connections r) (push_back_at ?g 0 (is_start r))"
    using mrk by (rule marked_push_flag)
  ultimately show ?thesis by (simp add: roadmap_ok_def)
qed

lemma add_sample_ok:
  assumes ok: "roadmap_ok prob r" and index: "Suc index < length (sets r)"
  shows "roadmap_ok prob
    (r\<lparr>sets := push_back_at index w (sets r),
       connections := push_back_at index [] (connections r),
       is_start := push_back_at index 0 (is_start r)\<rparr>)"
proof -
  from ok have shp: "shaped (sets r) (connections r)" and flg: "flagged (sets r) (is_start r)"
    and snd: "sound prob (sets r) (connections r)" and mrk: "marked (connections r) (is_start r)"
    by (simp_all add: roadmap_ok_def)
  have "shaped (push_back_at index w (sets r)) (push_back_at index [] (connections r))"
    using shp index by (auto simp: shaped_def length_nth_push_back_at push_back_at_nonempty)
  moreover have "flagged (push_back_at index w (sets r)) (push_back_at index 0 (is_start r))"
    using flg by (auto simp: flagged_def length_nth_push_back_at)
  moreover have "sound prob (push_back_at index w (sets r)) (push_back_at index [] (connections r))"
    using shp snd by (intro sound_push_row sound_push_layer)
  moreover have "marked (push_back_at index [] (connections r)) (push_back_at index 0 (is_start r))"
    using mrk by (intro marked_push_flag marked_extends [OF _ extends_push_row])
  ultimately show ?thesis by (simp add: roadmap_ok_def)
qed

lemma expand_step_ok:
  assumes ok: "expansion_ok prob n e" and ns: "\<not> solved e"
    and pdf: "0 < pdf_sample prob t" "pdf_sample prob t \<le> Suc n"
  shows "expansion_ok prob n (expand_step prob samplers t e)"
proof -
  let ?r = "roadmap e"
  let ?index = "pdf_sample prob t"
  from ok have rok: "roadmap_ok prob ?r" and len: "length (sets ?r) = n + 2"
    by (simp_all add: expansion_ok_def)
  have g: "length (sets ?r) - Suc 0 = Suc n" using len by simp
  have added: "expansion_ok prob n
      \<lparr>roadmap = connect_added prob ?index r1, adding_goals = a,
       solved = (if 1 \<in> set (is_start (connect_added prob ?index r1) ! Suc n) then True
                 else solved e)\<rparr>"
    if "roadmap_ok prob r1" and "length (sets r1) = n + 2" for r1 a
  proof -
    from that pdf have "roadmap_ok prob (connect_added prob ?index r1)
        \<and> sets (connect_added prob ?index r1) = sets r1"
      by (intro connect_added_ok) simp_all
    with that ns show ?thesis by (simp add: expansion_ok_def)
  qed
  have same: "expansion_ok prob n \<lparr>roadmap = ?r, adding_goals = a, solved = solved e\<rparr>" for a
    using ok by (simp add: expansion_ok_def)
  show ?thesis
  proof (cases "?index = Suc n \<or> (adding_goals e \<and> goal_biased prob t)")
    case True
    show ?thesis
    proof (cases "nextGoal prob t")
      case None
      with True same show ?thesis by (simp add: expand_step_def g Let_def)
    next
      case (Some st)
      have "expansion_ok prob n
        \<lparr>roadmap = connect_added prob ?index
            (?r\<lparr>sets := push_back_at (Suc n) st (sets ?r),
                is_start := push_back_at (Suc n) 0 (is_start ?r)\<rparr>),
         adding_goals = adding_goals e,
         solved = (if 1 \<in> set (is_start (connect_added prob ?index
            (?r\<lparr>sets := push_back_at (Suc n) st (sets ?r),
                is_start := push_back_at (Suc n) 0 (is_start ?r)\<rparr>)) ! Suc n) then True
                 else solved e)\<rparr>"
        using add_goal_ok [OF rok, of st] len by (intro added) (simp_all add: g)
      with True Some show ?thesis by (simp add: expand_step_def g Let_def)
    qed
  next
    case False
    then have lt: "Suc ?index < length (sets ?r)" using pdf len by simp
    show ?thesis
    proof (cases "sample (samplers ! (?index - 1)) t")
      case None
      with False same show ?thesis by (auto simp: expand_step_def g Let_def)
    next
      case (Some w)
      show ?thesis
      proof (cases "isValid prob w")
        case False
        with \<open>\<not> (?index = Suc n \<or> (adding_goals e \<and> goal_biased prob t))\<close> Some same
        show ?thesis by (auto simp: expand_step_def g Let_def)
      next
        case True
        have "expansion_ok prob n
          \<lparr>roadmap = connect_added prob ?index
              (?r\<lparr>sets := push_back_at ?index w (sets ?r),
                  connections := push_back_at ?index [] (connections ?r),
                  is_start := push_back_at ?index 0 (is_start ?r)\<rparr>),
           adding_goals = adding_goals e,
           solved = (if 1 \<in> set (is_start (connect_added prob ?index
              (?r\<lparr>sets := push_back_at ?index w (sets ?r),
                  connections := push_back_at ?index [] (connections ?r),
                  is_start := push_back_at ?index 0 (is_start ?r)\<rparr>)) ! Suc n) then True
                   else solved e)\<rparr>"
          using add_sample_ok [OF rok lt, of w] len by (intro added) simp_all
        with \<open>\<not> (?index = Suc n \<or> (adding_goals e \<and> goal_biased prob t))\<close> Some True
        show ?thesis by (auto simp: expand_step_def g Let_def)
      qed
    qed
  qed
qed

lemma expand_ok:
  assumes pdf: "\<And>t. 0 < pdf_sample prob t \<and> pdf_sample prob t \<le> Suc n"
  shows "expansion_ok prob n e \<Longrightarrow> expansion_ok prob n (expand prob samplers p e)"
proof (induction p arbitrary: e)
  case 0
  then show ?case by simp
next
  case (Suc p)
  show ?case
  proof (cases "solved e")
    case True
    with Suc.prems show ?thesis by simp
  next
    case False
    with Suc.prems pdf have "expansion_ok prob n (expand_step prob samplers p e)"
      by (intro expand_step_ok) simp_all
    then have "expansion_ok prob n (expand prob samplers p (expand_step prob samplers p e))"
      by (rule Suc.IH)
    with False show ?thesis by simp
  qed
qed

subsection \<open>The first roadmap and the seeded layers\<close>

lemma length_first_connections [simp]:
  "length (first_connections prob layers) = length layers - 1"
  by (simp add: first_connections_def)

lemma first_connections_ok:
  assumes ne: "\<forall>i<length layers. layers ! i \<noteq> []" and len: "0 < length layers"
  shows "shaped layers (first_connections prob layers)
       \<and> sound prob layers (first_connections prob layers)"
proof -
  have row: "length (first_connections prob layers ! i) = length (layers ! i)"
    if "i < length layers - 1" for i
    using that by (simp add: first_connections_def)
  have edge: "j = 0 \<and> k = 0 \<and> checkMotion prob (layers ! i ! 0) (layers ! Suc i ! 0)"
    if "i < length layers - 1" and "j < length (layers ! i)"
      and "k \<in> set (first_connections prob layers ! i ! j)" for i j k
    using that
    by (cases "j = 0")
      (auto simp: first_connections_def push_back_at_def split: if_splits)
  have "shaped layers (first_connections prob layers)"
    using ne len row by (simp add: shaped_def)
  moreover have "sound prob layers (first_connections prob layers)"
    unfolding sound_def
  proof (intro allI impI ballI)
    fix i j k
    assume i: "i < length (first_connections prob layers)"
      and j: "j < length (first_connections prob layers ! i)"
      and k: "k \<in> set (first_connections prob layers ! i ! j)"
    from i have i': "i < length layers - 1" by simp
    with j row have j': "j < length (layers ! i)" by simp
    from edge [OF i' j' k] have "j = 0" "k = 0"
      and cm: "checkMotion prob (layers ! i ! 0) (layers ! Suc i ! 0)" by simp_all
    moreover from ne i' have "layers ! Suc i \<noteq> []" by simp
    ultimately show "k < length (layers ! Suc i)
        \<and> checkMotion prob (layers ! i ! j) (layers ! Suc i ! k)" by simp
  qed
  ultimately show ?thesis by simp
qed

lemma start_connections_ok:
  assumes "shaped layers conns" and "sound prob layers conns" and "1 < length layers"
  shows "shaped layers (start_connections prob layers conns)
       \<and> sound prob layers (start_connections prob layers conns)"
  unfolding start_connections_def
proof (rule fold_invariant [where I = "\<lambda>c. shaped layers c \<and> sound prob layers c"])
  show "shaped layers conns \<and> sound prob layers conns" using assms by simp
next
  fix i c
  assume "i \<in> set [1..<length (layers ! 0)]" and c: "shaped layers c \<and> sound prob layers c"
  from c assms(3) have "layers ! Suc 0 \<noteq> []" by (simp add: shaped_def)
  then have z: "0 < length (layers ! Suc 0)" by simp
  show "shaped layers (if checkMotion prob (layers ! 0 ! i) (layers ! 1 ! 0)
                       then push_edge 0 i 0 c else c)
      \<and> sound prob layers (if checkMotion prob (layers ! 0 ! i) (layers ! 1 ! 0)
                             then push_edge 0 i 0 c else c)"
  proof (cases "checkMotion prob (layers ! 0 ! i) (layers ! 1 ! 0)")
    case False
    with c show ?thesis by simp
  next
    case True
    then have "checkMotion prob (layers ! 0 ! i) (layers ! Suc 0 ! 0)" by simp
    with c z have "sound prob layers (push_edge 0 i 0 c)"
      by (intro sound_push_edge) simp_all
    with True c show ?thesis by (simp add: shaped_push_edge)
  qed
qed

lemma initial_flags_ok:
  "flagged layers (initial_flags layers) \<and> marked conns (initial_flags layers)"
  by (auto simp: flagged_def marked_def initial_flags_def intro: reach.reach_start
      split: if_splits)

lemma initial_roadmap_ok:
  assumes ne: "\<forall>i<length layers. layers ! i \<noteq> []" and len: "1 < length layers"
  shows "roadmap_ok prob (initial_roadmap prob layers)
       \<and> sets (initial_roadmap prob layers) = layers"
proof -
  let ?conns = "start_connections prob layers (first_connections prob layers)"
  from len have "0 < length layers" by (cases layers) simp_all
  from first_connections_ok [OF ne this, of prob]
  have "shaped layers (first_connections prob layers)"
    and "sound prob layers (first_connections prob layers)" by simp_all
  with len have shp: "shaped layers ?conns" and snd: "sound prob layers ?conns"
    using start_connections_ok by blast+
  let ?I = "\<lambda>f. flagged layers f \<and> marked ?conns f"
  have "?I (fold (\<lambda>i flags. propagateStartInfo 0 i flags ?conns)
             [0..<length (layers ! 0)] (initial_flags layers))"
  proof (rule fold_invariant [where I = ?I])
    show "?I (initial_flags layers)" by (rule initial_flags_ok)
  next
    fix i f
    assume i: "i \<in> set [0..<length (layers ! 0)]" and f: "?I f"
    have "reach ?conns 0 i" by (rule reach.reach_start)
    moreover from shp i have "0 < length ?conns \<longrightarrow> i < length (?conns ! 0)"
      by (simp add: shaped_def)
    ultimately show "?I (propagateStartInfo 0 i f ?conns)"
      using shp snd f by (intro propagateStartInfo_keeps) simp_all
  qed
  with shp snd show ?thesis
    by (simp add: initial_roadmap_def Let_def roadmap_ok_def)
qed

lemma seed_attempt_keeps:
  "length (seed_attempt prob smp i t layers) = length layers
   \<and> (\<forall>j. layers ! j \<noteq> [] \<longrightarrow> seed_attempt prob smp i t layers ! j \<noteq> [])"
  by (auto simp: seed_attempt_def Let_def push_back_at_nonempty split: option.splits)

lemma seed_layer_keeps:
  "seed_layer prob smp i p layers = (layers', p') \<Longrightarrow>
     length layers' = length layers
     \<and> (\<forall>j. layers ! j \<noteq> [] \<longrightarrow> layers' ! j \<noteq> [])
     \<and> (0 < p' \<longrightarrow> layers' ! Suc i \<noteq> [])"
proof (induction p arbitrary: layers)
  case 0
  then show ?case by simp
next
  case (Suc p)
  show ?case
  proof (cases "layers ! Suc i = []")
    case False
    with Suc.prems show ?thesis by auto
  next
    case True
    with Suc.prems have "seed_layer prob smp i p (seed_attempt prob smp i p layers) = (layers', p')"
      by simp
    from Suc.IH [OF this] seed_attempt_keeps [of prob smp i p layers] show ?thesis
      by simp
  qed
qed

lemma seed_layers_fired: "seed_layers prob smps i 0 layers = (layers, 0)"
  by (cases smps) simp_all

lemma seed_layers_keeps:
  "seed_layers prob smps i p layers = (layers', p') \<Longrightarrow>
     length layers' = length layers
     \<and> (\<forall>j. layers ! j \<noteq> [] \<longrightarrow> layers' ! j \<noteq> [])
     \<and> (0 < p' \<longrightarrow> (\<forall>k<length smps. layers' ! Suc (i + k) \<noteq> []))"
proof (induction smps arbitrary: i p layers)
  case Nil
  then show ?case by simp
next
  case (Cons smp rest)
  show ?case
  proof (cases p)
    case 0
    with Cons.prems show ?thesis by simp
  next
    case (Suc q)
    obtain l1 p1 where s1: "seed_layer prob smp i q layers = (l1, p1)"
      by (cases "seed_layer prob smp i q layers")
    with Cons.prems Suc have s2: "seed_layers prob rest (Suc i) p1 l1 = (layers', p')"
      by simp
    note a = seed_layer_keeps [OF s1] and b = Cons.IH [OF s2]
    have first: "layers' ! Suc i \<noteq> []" if "0 < p'"
    proof -
      have "0 < p1"
      proof (rule ccontr)
        assume "\<not> 0 < p1"
        with s2 have "p' = 0" by (simp add: seed_layers_fired)
        with that show False by simp
      qed
      with a b show ?thesis by simp
    qed
    have "layers' ! Suc (i + k) \<noteq> []" if "0 < p'" and "k < length (smp # rest)" for k
    proof (cases k)
      case 0
      with first that show ?thesis by simp
    next
      case (Suc k')
      with b that show ?thesis by simp
    qed
    with a b show ?thesis by simp
  qed
qed

subsection \<open>The search for the solution path\<close>

lemma leads_iff:
  "i < length conns \<Longrightarrow> leads conns i j \<longleftrightarrow> (\<exists>k\<in>set (conns ! i ! j). leads conns (Suc i) k)"
  by (auto elim: leads.cases intro: leads.intros)

lemma findSolutionPath_leads:
  fixes path path' :: "'s list"
  shows "set_index \<le> length conns \<longrightarrow>
     (fst (findSolutionPath path set_index elem_index layers conns)
        \<longleftrightarrow> leads conns set_index elem_index)"
  and find_loop_leads:
  "set_index' < length conns' \<longrightarrow>
     (fst (find_loop path' set_index' elem_index' cs layers' conns')
        \<longleftrightarrow> (\<exists>c\<in>set cs. leads conns' (Suc set_index') c))"
proof (induction path set_index elem_index layers conns
    and path' set_index' elem_index' cs layers' conns'
    rule: findSolutionPath_find_loop.induct)
  case (1 path set_index elem_index layers conns)
  show ?case
  proof (cases "set_index = length conns")
    case True
    then show ?thesis by (simp add: findSolutionPath.simps leads.leads_goal)
  next
    case False
    show ?thesis
    proof
      assume "set_index \<le> length conns"
      with False have lt: "set_index < length conns" by simp
      with False "1.IH" leads_iff [OF lt, of elem_index]
      show "fst (findSolutionPath path set_index elem_index layers conns)
          \<longleftrightarrow> leads conns set_index elem_index"
        by (simp add: findSolutionPath.simps)
    qed
  qed
next
  case (2 path set_index elem_index layers conns)
  show ?case by simp
next
  case (3 path set_index elem_index c cs layers conns)
  show ?case
  proof
    assume lt: "set_index < length conns"
    obtain b p where r: "findSolutionPath path (Suc set_index) c layers conns = (b, p)"
      by (cases "findSolutionPath path (Suc set_index) c layers conns")
    from "3.IH"(1) [OF lt] lt r have b: "b \<longleftrightarrow> leads conns (Suc set_index) c" by simp
    show "fst (find_loop path set_index elem_index (c # cs) layers conns)
        \<longleftrightarrow> (\<exists>c\<in>set (c # cs). leads conns (Suc set_index) c)"
    proof (cases b)
      case True
      with lt r b show ?thesis by simp
    next
      case False
      with "3.IH"(2) [OF lt r [symmetric]] lt
      have "fst (find_loop p set_index elem_index cs layers conns)
          \<longleftrightarrow> (\<exists>c\<in>set cs. leads conns (Suc set_index) c)" by simp
      with False lt r b show ?thesis by simp
    qed
  qed
qed

lemma findSolutionPath_chain:
  fixes path path' :: "'s list"
  shows "findSolutionPath path set_index elem_index layers conns = (found, out) \<longrightarrow>
     (if found then \<exists>q. out = path @ q \<and> chain layers conns set_index elem_index q
      else out = path)"
  and find_loop_chain:
  "set cs \<subseteq> set (conns' ! set_index' ! elem_index') \<longrightarrow>
     find_loop path' set_index' elem_index' cs layers' conns' = (found', out') \<longrightarrow>
     (if found' then \<exists>q. out' = path' @ q \<and> chain layers' conns' set_index' elem_index' q
      else out' = path')"
proof (induction path set_index elem_index layers conns
    and path' set_index' elem_index' cs layers' conns'
    arbitrary: found out and found' out'
    rule: findSolutionPath_find_loop.induct)
  case (1 path set_index elem_index layers conns)
  show ?case
  proof (cases "set_index = length conns")
    case True
    then show ?thesis by (auto simp: findSolutionPath.simps intro: chain.chain_goal)
  next
    case False
    show ?thesis
    proof (cases "set_index < length conns")
      case lt: True
      with False "1.IH" [of found out] show ?thesis
        by (simp add: findSolutionPath.simps)
    next
      case False
      with \<open>set_index \<noteq> length conns\<close> show ?thesis
        by (auto simp: findSolutionPath.simps)
    qed
  qed
next
  case (2 path set_index elem_index layers conns)
  show ?case by auto
next
  case (3 path set_index elem_index c cs layers conns)
  show ?case
  proof (intro impI)
    assume sub: "set (c # cs) \<subseteq> set (conns ! set_index ! elem_index)"
      and res: "find_loop path set_index elem_index (c # cs) layers conns = (found', out')"
    show "if found' then \<exists>q. out' = path @ q \<and> chain layers conns set_index elem_index q
          else out' = path"
    proof (cases "set_index < length conns")
      case False
      with res show ?thesis by auto
    next
      case lt: True
      obtain b p where r: "findSolutionPath path (Suc set_index) c layers conns = (b, p)"
        by (cases "findSolutionPath path (Suc set_index) c layers conns")
      from "3.IH"(1) [OF lt, of b p] r
      have first: "if b then \<exists>q. p = path @ q \<and> chain layers conns (Suc set_index) c q
                   else p = path" by simp
      show ?thesis
      proof (cases b)
        case True
        with first obtain q where q: "p = path @ q" "chain layers conns (Suc set_index) c q"
          by auto
        from lt sub q(2) have "chain layers conns set_index elem_index
            (q @ [layers ! set_index ! elem_index])"
          by (intro chain.chain_edge [where k = c]) simp_all
        with True lt r res q(1) show ?thesis by auto
      next
        case False
        with first have p: "p = path" by simp
        from False lt r res have "find_loop p set_index elem_index cs layers conns = (found', out')"
          by simp
        with "3.IH"(2) [OF lt r [symmetric], of found' out'] False sub p show ?thesis
          by (auto split: if_splits)
      qed
    qed
  qed
qed

lemma chain_last: "chain layers conns i j q \<Longrightarrow> q \<noteq> [] \<and> last q = layers ! i ! j"
  by (induction rule: chain.induct) simp_all

lemma path_along_Cons:
  assumes "path_along prob ls p" and "p \<noteq> []" and "x \<in> set l"
    and "checkMotion prob x (hd p)"
  shows "path_along prob (l # ls) (x # p)"
  unfolding path_along_def
proof (intro conjI allI impI)
  show "length (x # p) = length (l # ls)" using assms(1) by (simp add: path_along_def)
next
  fix i
  assume "i < length (l # ls)"
  with assms(1,3) show "(x # p) ! i \<in> set ((l # ls) ! i)"
    by (cases i) (simp_all add: path_along_def)
next
  fix i
  assume "Suc i < length (l # ls)"
  with assms(1,2,4) show "checkMotion prob ((x # p) ! i) ((x # p) ! Suc i)"
    by (cases i) (simp_all add: path_along_def hd_conv_nth)
qed

lemma chain_path_along:
  assumes shp: "shaped layers conns" and snd: "sound prob layers conns"
  shows "chain layers conns i j q \<Longrightarrow> j < length (layers ! i)
    \<Longrightarrow> path_along prob (drop i layers) (rev q)"
proof (induction rule: chain.induct)
  case (chain_goal i j)
  with shp have "drop i layers = [layers ! i]"
    by (metis Cons_nth_drop_Suc drop_all lessI order_refl shaped_def)
  with chain_goal show ?case by (simp add: path_along_def)
next
  case (chain_edge i k j q)
  from shp chain_edge.hyps(1) have il: "i < length layers" by (simp add: shaped_def)
  from shp chain_edge.hyps(1) chain_edge.prems have jc: "j < length (conns ! i)"
    by (simp add: shaped_def)
  with snd chain_edge.hyps(1,2) have kr: "k < length (layers ! Suc i)"
    and cm: "checkMotion prob (layers ! i ! j) (layers ! Suc i ! k)"
    unfolding sound_def by blast+
  from chain_edge.IH [OF kr] have pa: "path_along prob (drop (Suc i) layers) (rev q)" .
  from chain_last [OF chain_edge.hyps(3)] have ne: "rev q \<noteq> []"
    and hd: "hd (rev q) = layers ! Suc i ! k"
    by (simp_all add: hd_rev)
  have "path_along prob (layers ! i # drop (Suc i) layers) (layers ! i ! j # rev q)"
    using pa ne chain_edge.prems cm hd by (intro path_along_Cons) simp_all
  with il show ?case by (simp add: Cons_nth_drop_Suc)
qed

lemma reach_leads:
  "reach conns i j \<Longrightarrow> leads conns i j \<Longrightarrow> (i = 0 \<longrightarrow> j < length (conns ! 0))
     \<Longrightarrow> \<exists>j0<length (conns ! 0). leads conns 0 j0"
proof (induction rule: reach.induct)
  case (reach_start j)
  then show ?case by auto
next
  case (reach_edge i j k)
  from reach_edge.hyps(2,4) reach_edge.prems(1) have "leads conns i j"
    by (rule leads.leads_edge)
  with reach_edge.hyps(3) show ?case by (intro reach_edge.IH) auto
qed

lemma search_from_starts_result:
  "search_from_starts path starts layers conns = (found, out) \<Longrightarrow> 0 < length conns \<Longrightarrow>
     (found \<longleftrightarrow> (\<exists>i\<in>set starts. leads conns 0 i))
     \<and> (if found then \<exists>q. \<exists>i\<in>set starts. out = path @ q \<and> chain layers conns 0 i q
         else out = path)"
proof (induction starts arbitrary: path)
  case Nil
  then show ?case by auto
next
  case (Cons i starts)
  obtain b p where r: "findSolutionPath path 0 i layers conns = (b, p)"
    by (cases "findSolutionPath path 0 i layers conns")
  from findSolutionPath_leads(1) [where set_index = 0 and conns = conns and path = path
      and elem_index = i and layers = layers] r Cons.prems(2)
  have b: "b \<longleftrightarrow> leads conns 0 i" by simp
  from findSolutionPath_chain(1) [where set_index = 0 and conns = conns and path = path
      and elem_index = i and layers = layers and found = b and out = p] r
  have c: "if b then \<exists>q. p = path @ q \<and> chain layers conns 0 i q else p = path" by simp
  show ?case
  proof (cases b)
    case True
    with r b c Cons.prems(1) show ?thesis by auto
  next
    case False
    with c have "p = path" by simp
    with False r Cons.prems(1) have "search_from_starts path starts layers conns = (found, out)"
      by simp
    note ih = Cons.IH [OF this Cons.prems(2)]
    have f: "found \<longleftrightarrow> (\<exists>i\<in>set starts. leads conns 0 i)"
      by (rule conjunct1 [OF ih])
    have o: "if found then \<exists>q. \<exists>i\<in>set starts. out = path @ q \<and> chain layers conns 0 i q
              else out = path"
      by (rule conjunct2 [OF ih])
    from f False b have "found \<longleftrightarrow> (\<exists>j\<in>set (i # starts). leads conns 0 j)" by simp
    moreover have "if found then \<exists>q. \<exists>j\<in>set (i # starts). out = path @ q \<and> chain layers conns 0 j q
        else out = path"
    proof (cases found)
      case True
      with o obtain q j where "j \<in> set starts" "out = path @ q" "chain layers conns 0 j q"
        by auto
      with True show ?thesis by auto
    next
      case False
      with o show ?thesis by simp
    qed
    ultimately show ?thesis by simp
  qed
qed

lemma computeSolution_adds:
  assumes shp: "shaped layers conns" and snd: "sound prob layers conns"
    and len: "0 < length conns"
    and leads: "\<exists>j<length (layers ! 0). leads conns 0 j"
  shows "\<exists>p. computeSolution layers conns paths0 = paths0 @ [p] \<and> path_along prob layers p"
proof -
  obtain found out where r: "search_from_starts [] [0..<length (layers ! 0)] layers conns
      = (found, out)"
    by (cases "search_from_starts [] [0..<length (layers ! 0)] layers conns")
  from search_from_starts_result [OF r len] leads
  obtain q i where f: found and q: "out = q" "i < length (layers ! 0)" "chain layers conns 0 i q"
    by (auto split: if_splits)
  from chain_path_along [OF shp snd q(3) q(2)] have "path_along prob layers (rev q)" by simp
  with r f q(1) show ?thesis by (simp add: computeSolution_def)
qed

subsection \<open>The run\<close>

lemma path_along_follows: "path_along prob layers p \<Longrightarrow> follows_layers prob layers p"
  by (auto simp: path_along_def follows_layers_def list_all_iff)

lemma push_back_at_own: "a < length vs \<Longrightarrow> push_back_at a x vs ! a \<noteq> []"
  by (simp add: push_back_at_def)

lemma nth_first_connections:
  "i < length layers - 1 \<Longrightarrow>
     first_connections prob layers ! i =
       (if checkMotion prob (layers ! i ! 0) (layers ! Suc i ! 0)
        then push_back_at 0 0 (replicate (length (layers ! i)) [])
        else replicate (length (layers ! i)) [])"
  unfolding first_connections_def by (simp only: nth_map length_upt diff_zero nth_upt add_0)

lemma first_leads:
  assumes worked: "first_sample_worked prob layers"
    and ne: "\<forall>i<length layers. layers ! i \<noteq> []"
  shows "i \<le> length layers - 1 \<Longrightarrow> leads (first_connections prob layers) i 0"
proof (induction d \<equiv> "length layers - 1 - i" arbitrary: i)
  case 0
  then have "i = length (first_connections prob layers)" by simp
  then show ?case by (rule leads.leads_goal)
next
  case (Suc d)
  from Suc.hyps(2) have lt: "i < length layers - 1" by linarith
  from worked lt have cm: "checkMotion prob (layers ! i ! 0) (layers ! Suc i ! 0)"
    unfolding first_sample_worked_def list_all_iff by simp
  from ne lt have "layers ! i \<noteq> []" by simp
  then have pos: "0 < length (layers ! i)" by simp
  have "first_connections prob layers ! i = push_back_at 0 0 (replicate (length (layers ! i)) [])"
    using nth_first_connections [OF lt, of prob] cm by simp
  moreover have "push_back_at 0 (0::nat) (replicate (length (layers ! i)) []) ! 0 = [0]"
    using pos by (simp add: push_back_at_def)
  ultimately have mem: "0 \<in> set (first_connections prob layers ! i ! 0)" by simp
  have d: "d = length layers - 1 - Suc i" using Suc.hyps(2) by linarith
  have le: "Suc i \<le> length layers - 1" using lt by linarith
  have next_leads: "leads (first_connections prob layers) (Suc i) 0"
    using d le by (rule Suc.hyps(1))
  have lt': "i < length (first_connections prob layers)" using lt by simp
  from lt' mem next_leads show ?case by (rule leads.leads_edge)
qed

lemma seeded_layers:
  assumes starts: "start_states prob \<noteq> []"
    and seed: "seed_layers prob samplers 0 ptc0
        ((replicate (length samplers + 2) [])[0 := start_states prob]) = (layers1, Suc p2)"
  shows "length (push_back_at (length layers1 - 1) st layers1) = length samplers + 2
       \<and> (\<forall>i<length samplers + 2. push_back_at (length layers1 - 1) st layers1 ! i \<noteq> [])"
proof -
  let ?empty_layers = "(replicate (length samplers + 2) [])[0 := start_states prob]"
  note k = seed_layers_keeps [OF seed]
  from k have len: "length layers1 = length samplers + 2" by simp
  from k have keep: "\<forall>j. ?empty_layers ! j \<noteq> [] \<longrightarrow> layers1 ! j \<noteq> []" by blast
  from k have filled: "\<forall>k<length samplers. layers1 ! Suc k \<noteq> []" by simp
  from starts keep have zero: "layers1 ! 0 \<noteq> []" by simp
  have "push_back_at (length layers1 - 1) st layers1 ! i \<noteq> []" if "i < length samplers + 2" for i
  proof (cases "i = length samplers + 1")
    case True
    with len show ?thesis by (simp add: push_back_at_own)
  next
    case False
    with that have "i = 0 \<or> (\<exists>k<length samplers. i = Suc k)"
      by (cases i) simp_all
    with zero filled have "layers1 ! i \<noteq> []" by auto
    then show ?thesis by (rule push_back_at_nonempty)
  qed
  with len show ?thesis by simp
qed

lemma solved_leads:
  assumes ok: "expansion_ok prob n e" and s: "solved e"
  shows "\<exists>j<length (sets (roadmap e) ! 0). leads (connections (roadmap e)) 0 j"
proof -
  let ?r = "roadmap e"
  from ok have shp: "shaped (sets ?r) (connections ?r)" and flg: "flagged (sets ?r) (is_start ?r)"
    and mrk: "marked (connections ?r) (is_start ?r)" and len: "length (sets ?r) = n + 2"
    by (simp_all add: expansion_ok_def roadmap_ok_def)
  from ok s have "1 \<in> set (is_start ?r ! Suc n)" by (simp add: expansion_ok_def)
  then obtain g where g: "g < length (is_start ?r ! Suc n)" "is_start ?r ! Suc n ! g = 1"
    by (auto simp: in_set_conv_nth)
  from flg len have "Suc n < length (is_start ?r)" by (simp add: flagged_def)
  with mrk g have r: "reach (connections ?r) (Suc n) g" by (simp add: marked_def)
  from shp len have cl: "length (connections ?r) = Suc n" by (simp add: shaped_def)
  then have "leads (connections ?r) (Suc n) g" by (intro leads.leads_goal) simp
  with r have "\<exists>j0<length (connections ?r ! 0). leads (connections ?r) 0 j0"
    by (rule reach_leads) simp
  moreover from shp cl have "length (connections ?r ! 0) = length (sets ?r ! 0)"
    by (simp add: shaped_def)
  ultimately show ?thesis by simp
qed

lemma Follower_follow_cases:
  assumes exact: "status (Follower_follow prob samplers ptc0 paths0) = EXACT_SOLUTION"
  obtains layers1 p2 st where
    "start_states prob \<noteq> []"
    "seed_layers prob samplers 0 ptc0
       ((replicate (length samplers + 2) [])[0 := start_states prob]) = (layers1, Suc p2)"
    "nextGoal prob p2 = Some st"
    "Follower_follow prob samplers ptc0 paths0 =
       (let layers2 = push_back_at (length layers1 - 1) st layers1
        in if first_sample_worked prob layers2 then
             \<lparr>status = EXACT_SOLUTION,
              paths = computeSolution layers2 (first_connections prob layers2) paths0,
              layers_built = layers2\<rparr>
           else
             (let e = expand prob samplers p2
                        \<lparr>roadmap = initial_roadmap prob layers2,
                         adding_goals = True, solved = False\<rparr>;
                  r = roadmap e
              in if solved e then
                   \<lparr>status = EXACT_SOLUTION,
                    paths = computeSolution (sets r) (connections r) paths0,
                    layers_built = sets r\<rparr>
                 else
                   \<lparr>status = TIMEOUT, paths = paths0, layers_built = sets r\<rparr>))"
proof -
  let ?empty_layers = "(replicate (length samplers + 2) [])[0 := start_states prob]"
  have gs: "goal_sampleable prob"
  proof (rule ccontr)
    assume "\<not> goal_sampleable prob"
    then have "status (Follower_follow prob samplers ptc0 paths0) = UNRECOGNIZED_GOAL_TYPE"
      by (simp add: Follower_follow_def)
    with exact show False by simp
  qed
  have l00: "?empty_layers ! 0 = start_states prob" by simp
  have starts: "start_states prob \<noteq> []"
  proof
    assume "start_states prob = []"
    with gs l00 have "status (Follower_follow prob samplers ptc0 paths0) = INVALID_START"
      unfolding Follower_follow_def by (simp only: if_True if_False not_True_eq_False Let_def)
        simp
    with exact show False by simp
  qed
  obtain layers1 p1 where seed: "seed_layers prob samplers 0 ptc0 ?empty_layers = (layers1, p1)"
    by (cases "seed_layers prob samplers 0 ptc0 ?empty_layers")
  have unfold: "Follower_follow prob samplers ptc0 paths0 =
      (case p1 of
         0 \<Rightarrow> \<lparr>status = TIMEOUT, paths = paths0, layers_built = layers1\<rparr>
       | Suc p2 \<Rightarrow>
           (case nextGoal prob p2 of
              None \<Rightarrow> \<lparr>status = INVALID_GOAL, paths = paths0, layers_built = layers1\<rparr>
            | Some st \<Rightarrow>
                (let layers2 = push_back_at (length layers1 - 1) st layers1
                 in if first_sample_worked prob layers2 then
                      \<lparr>status = EXACT_SOLUTION,
                       paths = computeSolution layers2 (first_connections prob layers2) paths0,
                       layers_built = layers2\<rparr>
                    else
                      (let e = expand prob samplers p2
                                 \<lparr>roadmap = initial_roadmap prob layers2,
                                  adding_goals = True, solved = False\<rparr>;
                           r = roadmap e
                       in if solved e then
                            \<lparr>status = EXACT_SOLUTION,
                             paths = computeSolution (sets r) (connections r) paths0,
                             layers_built = sets r\<rparr>
                          else
                            \<lparr>status = TIMEOUT, paths = paths0, layers_built = sets r\<rparr>))))"
  proof -
    from starts l00 have "?empty_layers ! 0 \<noteq> []" by simp
    with gs show ?thesis
      unfolding Follower_follow_def
      by (simp only: if_True if_False not_True_eq_False not_False_eq_True Let_def seed
          prod.case)
  qed
  obtain p2 where p1: "p1 = Suc p2"
  proof (cases p1)
    case 0
    with unfold exact show ?thesis by simp
  next
    case (Suc p2)
    with that show ?thesis by simp
  qed
  obtain st where goal: "nextGoal prob p2 = Some st"
  proof (cases "nextGoal prob p2")
    case None
    with unfold p1 exact show ?thesis by simp
  next
    case (Some st)
    with that show ?thesis by simp
  qed
  from unfold p1 goal
  have "Follower_follow prob samplers ptc0 paths0 =
       (let layers2 = push_back_at (length layers1 - 1) st layers1
        in if first_sample_worked prob layers2 then
             \<lparr>status = EXACT_SOLUTION,
              paths = computeSolution layers2 (first_connections prob layers2) paths0,
              layers_built = layers2\<rparr>
           else
             (let e = expand prob samplers p2
                        \<lparr>roadmap = initial_roadmap prob layers2,
                         adding_goals = True, solved = False\<rparr>;
                  r = roadmap e
              in if solved e then
                   \<lparr>status = EXACT_SOLUTION,
                    paths = computeSolution (sets r) (connections r) paths0,
                    layers_built = sets r\<rparr>
                 else
                   \<lparr>status = TIMEOUT, paths = paths0, layers_built = sets r\<rparr>))"
    by (simp only: nat.case option.case)
  with starts seed [unfolded p1] goal show ?thesis by (rule that)
qed

text \<open>
  Claim C1: when \<open>Follower::follow\<close> over the samplers \<open>S_1 .. S_n\<close> returns
  \<open>EXACT_SOLUTION\<close>, it has added one solution path to the problem definition. The path
  has \<open>n + 2\<close> waypoints, the \<open>i\<close>-th of them a state of the layer \<open>sets[i]\<close>, from the
  start layer to the goal layer, and the motion from each waypoint to the next is valid:
  the path runs along edges of \<open>connections\<close>, and an edge is recorded only once
  \<open>checkMotion\<close> has accepted it. The distribution over the layers draws one of the
  layers it was built over, \<open>1 .. n + 1\<close>.
\<close>

theorem Follower_follow_exact:
  assumes pdf: "\<forall>t. 0 < pdf_sample prob t \<and> pdf_sample prob t \<le> Suc (length samplers)"
    and exact: "status (Follower_follow prob samplers ptc0 paths0) = EXACT_SOLUTION"
  shows "paths (Follower_follow prob samplers ptc0 paths0)
           = paths0 @ [last (paths (Follower_follow prob samplers ptc0 paths0))]
       \<and> length (layers_built (Follower_follow prob samplers ptc0 paths0)) = length samplers + 2
       \<and> follows_layers prob (layers_built (Follower_follow prob samplers ptc0 paths0))
           (last (paths (Follower_follow prob samplers ptc0 paths0)))"
proof -
  let ?n = "length samplers"
  let ?run = "Follower_follow prob samplers ptc0 paths0"
  from exact obtain layers1 p2 st where starts: "start_states prob \<noteq> []"
    and seed: "seed_layers prob samplers 0 ptc0
       ((replicate (?n + 2) [])[0 := start_states prob]) = (layers1, Suc p2)"
    and run: "?run =
       (let layers2 = push_back_at (length layers1 - 1) st layers1
        in if first_sample_worked prob layers2 then
             \<lparr>status = EXACT_SOLUTION,
              paths = computeSolution layers2 (first_connections prob layers2) paths0,
              layers_built = layers2\<rparr>
           else
             (let e = expand prob samplers p2
                        \<lparr>roadmap = initial_roadmap prob layers2,
                         adding_goals = True, solved = False\<rparr>;
                  r = roadmap e
              in if solved e then
                   \<lparr>status = EXACT_SOLUTION,
                    paths = computeSolution (sets r) (connections r) paths0,
                    layers_built = sets r\<rparr>
                 else
                   \<lparr>status = TIMEOUT, paths = paths0, layers_built = sets r\<rparr>))"
    by (rule Follower_follow_cases)
  let ?seeded = "push_back_at (length layers1 - 1) st layers1"
  note sl = seeded_layers [OF starts seed, of st]
  have len: "length ?seeded = ?n + 2" by (rule conjunct1 [OF sl])
  have ne: "\<forall>i<length ?seeded. ?seeded ! i \<noteq> []" using conjunct2 [OF sl] len by simp
  have result: "paths ?run = paths0 @ [last (paths ?run)]
      \<and> length (layers_built ?run) = ?n + 2
      \<and> follows_layers prob (layers_built ?run) (last (paths ?run))"
    if r1: "paths ?run = computeSolution layers conns paths0" and r2: "layers_built ?run = layers"
      and shp: "shaped layers conns" and snd: "sound prob layers conns"
      and ll: "length layers = ?n + 2"
      and leads: "\<exists>j<length (layers ! 0). leads conns 0 j" for layers conns
  proof -
    from shp ll have "length conns = Suc ?n" by (simp add: shaped_def)
    then have "0 < length conns" by (cases conns) simp_all
    from computeSolution_adds [OF shp snd this leads, of paths0]
    obtain p where "computeSolution layers conns paths0 = paths0 @ [p]"
      and "path_along prob layers p" by blast
    with r1 r2 ll show ?thesis by (simp add: path_along_follows)
  qed
  show ?thesis
  proof (cases "first_sample_worked prob ?seeded")
    case True
    from len have "0 < length ?seeded" by simp
    from first_connections_ok [OF ne this, of prob]
    have shp: "shaped ?seeded (first_connections prob ?seeded)"
      and snd: "sound prob ?seeded (first_connections prob ?seeded)" by simp_all
    have "leads (first_connections prob ?seeded) 0 0"
      by (rule first_leads [OF True ne]) simp
    moreover from ne len have "0 < length (?seeded ! 0)" by simp
    ultimately have "\<exists>j<length (?seeded ! 0). leads (first_connections prob ?seeded) 0 j"
      by blast
    moreover from run True
    have "paths ?run = computeSolution ?seeded (first_connections prob ?seeded) paths0"
      and "layers_built ?run = ?seeded"
      by (simp_all only: Let_def if_True follow_run.simps)
    ultimately show ?thesis using shp snd len by (intro result)
  next
    case False
    let ?init = "\<lparr>roadmap = initial_roadmap prob ?seeded, adding_goals = True, solved = False\<rparr>"
    let ?e = "expand prob samplers p2 ?init"
    from len have "1 < length ?seeded" by simp
    from initial_roadmap_ok [OF ne this, of prob] len
    have "expansion_ok prob ?n ?init" by (simp add: expansion_ok_def)
    with pdf have ok: "expansion_ok prob ?n ?e" by (intro expand_ok) simp_all
    have s: "solved ?e"
    proof (rule ccontr)
      assume "\<not> solved ?e"
      with run False have "status ?run = TIMEOUT"
        by (simp only: Let_def if_False follow_run.simps)
      with exact show False by simp
    qed
    from ok have shp: "shaped (sets (roadmap ?e)) (connections (roadmap ?e))"
      and snd: "sound prob (sets (roadmap ?e)) (connections (roadmap ?e))"
      and ll: "length (sets (roadmap ?e)) = ?n + 2"
      by (simp_all add: expansion_ok_def roadmap_ok_def)
    from run False s
    have "paths ?run = computeSolution (sets (roadmap ?e)) (connections (roadmap ?e)) paths0"
      and "layers_built ?run = sets (roadmap ?e)"
      by (simp_all only: Let_def if_False if_True follow_run.simps)
    then show ?thesis using shp snd ll solved_leads [OF ok s] by (intro result)
  qed
qed

theorem Follower_follow_exact_witness:
  "status (Follower_follow gate_problem [gate_sampler] 10 []) = EXACT_SOLUTION
   \<and> paths (Follower_follow gate_problem [gate_sampler] 10 []) = [[0, 1, 2]]
   \<and> layers_built (Follower_follow gate_problem [gate_sampler] 10 []) = [[0], [5, 1], [2]]
   \<and> follows_layers gate_problem [[0], [5, 1], [2]] [0, 1, 2]"
proof -
  have run: "Follower_follow gate_problem [gate_sampler] 10 []
      = \<lparr>status = EXACT_SOLUTION, paths = [[0, 1, 2]], layers_built = [[0], [5, 1], [2]]\<rparr>"
    by code_simp
  have pdf: "\<forall>t. 0 < pdf_sample gate_problem t
      \<and> pdf_sample gate_problem t \<le> Suc (length [gate_sampler])"
    by (simp add: gate_problem_def)
  have exact: "status (Follower_follow gate_problem [gate_sampler] 10 []) = EXACT_SOLUTION"
    by (simp add: run)
  from Follower_follow_exact [OF pdf exact] show ?thesis
    by (simp add: run)
qed

text \<open>
  A run that does not return \<open>EXACT_SOLUTION\<close> adds no solution path, and a run whose
  termination condition has fired when it starts does not return \<open>EXACT_SOLUTION\<close>.
\<close>

lemma Follower_follow_no_path:
  "status (Follower_follow prob samplers ptc0 paths0) \<noteq> EXACT_SOLUTION
     \<Longrightarrow> paths (Follower_follow prob samplers ptc0 paths0) = paths0"
  by (auto simp: Follower_follow_def Let_def
      split: if_splits prod.splits nat.splits option.splits)

lemma Follower_follow_fired:
  "status (Follower_follow prob samplers 0 paths0) \<noteq> EXACT_SOLUTION
   \<and> paths (Follower_follow prob samplers 0 paths0) = paths0"
  by (simp add: Follower_follow_def seed_layers_fired Let_def)

end
